theory Spec2Isabelle
  imports
    Main
    "HOL-Library.Word"
    "HOL-Library.Sublist"
    "HOL-Library.AList"
    "HOL-Library.Char_ord"
    "HOL-Library.List_Lexorder"
begin

unbundle bit_operations_syntax

section \<open>The file system that fsync.go runs on\<close>

text \<open>
  fsync.go keeps no data of its own: every function stats, reads and writes the file
  system through Go's \<^verbatim>\<open>os\<close>, \<^verbatim>\<open>io\<close> and \<^verbatim>\<open>ioutil\<close> packages. The
  state of the model is therefore the file system itself.

  \<^item> A path is the list of its components, relative to a working directory that always
    exists and cannot be named; \<^verbatim>\<open>path.Join(dst, name)\<close> is \<open>dst @ [name]\<close>. The
    empty list is Go's empty path, for which every system call reports ENOENT.
  \<^item> The file system is an association list from paths to entries, read through
    \<open>lookup\<close>. An entry is a regular file (its bytes and mode bits) or a directory
    (its mode bits). Symbolic links, hard links and special files are not modelled.
  \<^item> A system call fails only for a reason visible in the tree (a missing component, a
    regular file where a directory is needed, a directory where a file is needed).
    Access control, quotas and device errors are not modelled, and nothing else changes
    the file system while a call runs.
  \<^item> Two counters record what the code did: \<open>reads\<close> counts the calls of
    \<^verbatim>\<open>File.Read\<close> made by \<^verbatim>\<open>equal\<close>, \<open>copies\<close> counts the calls of
    \<^verbatim>\<open>io.Copy\<close> made by \<^verbatim>\<open>sync\<close>.
\<close>

type_synonym path = "string list"
type_synonym bytes = "8 word list"
type_synonym filemode = "32 word"

datatype entry = File (content: bytes) (mode: filemode) | IsDir: Dir (mode: filemode)

datatype error = ENOENT | ENOTDIR | EISDIR | ENOTEMPTY | EBADF | ErrFileOverDir

record world =
  files :: "(path \<times> entry) list"
  umask :: filemode
  reads :: nat
  copies :: nat

type_synonym outcome = "error option \<times> world"

definition lookup :: "world \<Rightarrow> path \<Rightarrow> entry option" where
  "lookup w p = map_of (files w) p"

definition put :: "path \<Rightarrow> entry \<Rightarrow> world \<Rightarrow> world" where
  "put p e w = w\<lparr>files := AList.update p e (files w)\<rparr>"

definition unlink :: "path \<Rightarrow> world \<Rightarrow> world" where
  "unlink p w = w\<lparr>files := AList.delete p (files w)\<rparr>"

text \<open>\<^verbatim>\<open>FileMode.Perm\<close>: the nine permission bits, octal 0777.\<close>

definition Perm :: "filemode \<Rightarrow> filemode" where
  "Perm m = m AND 511"

text \<open>\<^verbatim>\<open>FileInfo.Size\<close>. What a directory reports is platform dependent; the
  synchroniser only compares the sizes of regular files.\<close>

definition dir_size :: nat where
  "dir_size = 4096"

fun Size :: "entry \<Rightarrow> nat" where
  "Size (File bs m) = length bs"
| "Size (Dir m) = dir_size"

fun set_mode :: "filemode \<Rightarrow> entry \<Rightarrow> entry" where
  "set_mode m (File bs _) = File bs m"
| "set_mode m (Dir _) = Dir m"

text \<open>The proper, non-empty prefixes of a path, shortest first: the directories that
  path resolution walks through.\<close>

definition parents :: "path \<Rightarrow> path list" where
  "parents p = map (\<lambda>i. take i p) [1..<length p]"

fun walk :: "world \<Rightarrow> path list \<Rightarrow> error option" where
  "walk w [] = None"
| "walk w (q # qs) =
     (case lookup w q of
        None \<Rightarrow> Some ENOENT
      | Some (File _ _) \<Rightarrow> Some ENOTDIR
      | Some (Dir _) \<Rightarrow> walk w qs)"

text \<open>\<^verbatim>\<open>os.Stat\<close>; the entry itself serves as the \<^verbatim>\<open>FileInfo\<close>.\<close>

definition Stat :: "path \<Rightarrow> world \<Rightarrow> error + entry" where
  "Stat p w =
     (if p = [] then Inl ENOENT
      else case walk w (parents p) of
             Some e \<Rightarrow> Inl e
           | None \<Rightarrow> (case lookup w p of None \<Rightarrow> Inl ENOENT | Some e \<Rightarrow> Inr e))"

text \<open>\<^verbatim>\<open>os.IsNotExist\<close> applied to the error of a call: true for ENOENT only
  (not for ENOTDIR, and not when the call succeeded).\<close>

definition IsNotExist :: "error + 'a \<Rightarrow> bool" where
  "IsNotExist r = (case r of Inl e \<Rightarrow> e = ENOENT | Inr _ \<Rightarrow> False)"

text \<open>\<^verbatim>\<open>os.Open\<close> resolves the path as \<^verbatim>\<open>os.Stat\<close> does; the handle is the entry
  found. Reading from a directory fails with EISDIR.\<close>

definition Open :: "path \<Rightarrow> world \<Rightarrow> error + entry" where
  "Open p w = Stat p w"

text \<open>\<^verbatim>\<open>ioutil.ReadDir\<close>: the names in a directory, sorted.\<close>

definition names_in :: "path \<Rightarrow> world \<Rightarrow> string list" where
  "names_in p w =
     sort (remdups (map (\<lambda>(q, e). last q)
       (filter (\<lambda>(q, e). q \<noteq> [] \<and> butlast q = p) (files w))))"

definition ReadDir :: "path \<Rightarrow> world \<Rightarrow> error + string list" where
  "ReadDir p w =
     (case Stat p w of
        Inl e \<Rightarrow> Inl e
      | Inr (File _ _) \<Rightarrow> Inl ENOTDIR
      | Inr (Dir _) \<Rightarrow> Inr (names_in p w))"

text \<open>\<^verbatim>\<open>os.RemoveAll\<close>: removes the path and everything below it; no error when
  there is nothing to remove, and nothing happens for the empty path.\<close>

definition RemoveAll :: "path \<Rightarrow> world \<Rightarrow> outcome" where
  "RemoveAll p w =
     (if p = [] then (None, w)
      else (None, w\<lparr>files := filter (\<lambda>(q, e). \<not> prefix p q) (files w)\<rparr>))"

text \<open>\<^verbatim>\<open>os.Remove\<close>: removes a file or an empty directory.\<close>

definition Remove :: "path \<Rightarrow> world \<Rightarrow> outcome" where
  "Remove p w =
     (case Stat p w of
        Inl e \<Rightarrow> (Some e, w)
      | Inr (File _ _) \<Rightarrow> (None, unlink p w)
      | Inr (Dir _) \<Rightarrow> (if names_in p w = [] then (None, unlink p w) else (Some ENOTEMPTY, w)))"

text \<open>\<^verbatim>\<open>os.Create\<close>: truncates an existing file, keeping its mode; creates a
  missing one with mode 0666 less the umask, if its directory exists.\<close>

definition Create :: "path \<Rightarrow> world \<Rightarrow> outcome" where
  "Create p w =
     (case Stat p w of
        Inr (File _ m) \<Rightarrow> (None, put p (File [] m) w)
      | Inr (Dir _) \<Rightarrow> (Some EISDIR, w)
      | Inl e \<Rightarrow>
          (if e = ENOENT \<and> p \<noteq> [] \<and> walk w (parents p) = None
           then (None, put p (File [] (438 AND NOT (umask w))) w)
           else (Some e, w)))"

text \<open>\<^verbatim>\<open>io.Copy(df, sf)\<close>, where \<open>df\<close> is the file just created at \<open>dst\<close> and
  \<open>sf\<close> the entry opened for reading: all bytes of \<open>sf\<close> are written to \<open>dst\<close>.\<close>

definition Copy :: "path \<Rightarrow> entry \<Rightarrow> world \<Rightarrow> outcome" where
  "Copy dst sf w =
     (case sf of
        Dir _ \<Rightarrow> (Some EISDIR, w\<lparr>copies := copies w + 1\<rparr>)
      | File bs _ \<Rightarrow>
          (case lookup w dst of
             Some (File _ m) \<Rightarrow> (None, put dst (File bs m) (w\<lparr>copies := copies w + 1\<rparr>))
           | _ \<Rightarrow> (Some EBADF, w\<lparr>copies := copies w + 1\<rparr>)))"

text \<open>\<^verbatim>\<open>os.Chmod\<close> sets the permission bits and the setuid, setgid and sticky bits
  (bits 23, 22 and 20 of a \<^verbatim>\<open>FileMode\<close>) from its argument; the type of the entry is
  not part of what it writes.\<close>

definition chmod_mask :: filemode where
  "chmod_mask = 511 OR push_bit 23 1 OR push_bit 22 1 OR push_bit 20 1"

definition Chmod :: "path \<Rightarrow> filemode \<Rightarrow> world \<Rightarrow> outcome" where
  "Chmod p m w =
     (case Stat p w of
        Inl e \<Rightarrow> (Some e, w)
      | Inr e \<Rightarrow> (None, put p (set_mode (m AND chmod_mask) e) w))"

text \<open>\<^verbatim>\<open>os.MkdirAll\<close>: walks the non-empty prefixes of the path, shortest first,
  keeps the directories that exist, fails at a regular file, and creates what is missing
  with the given permissions less the umask.\<close>

fun mkdirs :: "path list \<Rightarrow> filemode \<Rightarrow> world \<Rightarrow> outcome" where
  "mkdirs [] perm w = (None, w)"
| "mkdirs (q # qs) perm w =
     (case lookup w q of
        Some (Dir _) \<Rightarrow> mkdirs qs perm w
      | Some (File _ _) \<Rightarrow> (Some ENOTDIR, w)
      | None \<Rightarrow> mkdirs qs perm (put q (Dir (perm AND NOT (umask w))) w))"

definition MkdirAll :: "path \<Rightarrow> filemode \<Rightarrow> world \<Rightarrow> outcome" where
  "MkdirAll p perm w =
     (if p = [] then (Some ENOENT, w) else mkdirs (parents p @ [p]) perm w)"

section \<open>fsync.go\<close>

text \<open>A panic is the error component of an outcome. \<open>and_then\<close> runs the next
  statement unless the previous one panicked; \<open>deferred\<close> runs a deferred call, which
  Go does on return and on panic alike, a panic of the deferred call replacing the
  one in flight.\<close>

definition and_then :: "outcome \<Rightarrow> (world \<Rightarrow> outcome) \<Rightarrow> outcome" where
  "and_then out g = (case out of (Some e, w) \<Rightarrow> (Some e, w) | (None, w) \<Rightarrow> g w)"

definition deferred :: "(world \<Rightarrow> outcome) \<Rightarrow> outcome \<Rightarrow> outcome" where
  "deferred g out =
     (case out of (r, w) \<Rightarrow>
        (case g w of (None, w') \<Rightarrow> (r, w') | (Some e, w') \<Rightarrow> (Some e, w')))"

subsection \<open>equal (lines 190-237)\<close>

text \<open>The read loop, on what is left of the two files: each pass reads up to 1000
  bytes from both, compares the two chunks, and stops when both reads returned
  nothing. The second component counts the calls of \<^verbatim>\<open>Read\<close>.\<close>

function read_loop :: "bytes \<Rightarrow> bytes \<Rightarrow> bool \<times> nat" where
  "read_loop r1 r2 =
     (if take 1000 r1 \<noteq> take 1000 r2 then (False, 2)
      else if length (take 1000 r1) = 0 \<and> length (take 1000 r2) = 0 then (True, 2)
      else (case read_loop (drop 1000 r1) (drop 1000 r2) of (b, n) \<Rightarrow> (b, n + 2)))"
  by pat_completeness auto
termination
proof (relation "measure (\<lambda>(r1, r2). length r1)")
  fix r1 r2 :: bytes
  assume same: "\<not> take 1000 r1 \<noteq> take 1000 r2"
    and more: "\<not> (length (take 1000 r1) = 0 \<and> length (take 1000 r2) = 0)"
  from same more have "r1 \<noteq> []" by auto
  then show "((drop 1000 r1, drop 1000 r2), (r1, r2)) \<in> measure (\<lambda>(r1, r2). length r1)"
    by (cases r1) auto
qed simp

definition equal :: "path \<Rightarrow> path \<Rightarrow> world \<Rightarrow> (error + bool) \<times> world" where
  "equal a b w =
     (let r1 = Stat a w; r2 = Stat b w in
      if IsNotExist r1 \<or> IsNotExist r2 then (Inr False, w)
      else
        (case r1 of Inl e \<Rightarrow> (Inl e, w) | Inr info1 \<Rightarrow>
        (case r2 of Inl e \<Rightarrow> (Inl e, w) | Inr info2 \<Rightarrow>
           if Size info1 \<noteq> Size info2 then (Inr False, w)
           else
             (case Open a w of Inl e \<Rightarrow> (Inl e, w) | Inr f1 \<Rightarrow>
             (case Open b w of Inl e \<Rightarrow> (Inl e, w) | Inr f2 \<Rightarrow>
             (case f1 of
                Dir _ \<Rightarrow> (Inl EISDIR, w\<lparr>reads := reads w + 1\<rparr>)
              | File b1 _ \<Rightarrow>
                  (case f2 of
                     Dir _ \<Rightarrow> (Inl EISDIR, w\<lparr>reads := reads w + 2\<rparr>)
                   | File b2 _ \<Rightarrow>
                       (case read_loop b1 b2 of
                          (r, n) \<Rightarrow> (Inr r, w\<lparr>reads := reads w + n\<rparr>)))))))))"

subsection \<open>checkDir (lines 240-269)\<close>

definition checkDir :: "path \<Rightarrow> path \<Rightarrow> world \<Rightarrow> error + bool" where
  "checkDir dst src w =
     (case Stat dst w of
        Inl e \<Rightarrow> (if e = ENOENT then Inr False else Inl e)
      | Inr d \<Rightarrow>
          (case Stat src w of
             Inl e \<Rightarrow> Inl e
           | Inr s \<Rightarrow>
               if \<not> IsDir d \<or> IsDir s then Inr False
               else
                 (case ReadDir dst w of
                    Inl e \<Rightarrow> Inl e
                  | Inr fs \<Rightarrow> Inr (length fs > 0))))"

subsection \<open>syncperms (lines 170-187)\<close>

definition syncperms :: "path \<Rightarrow> path \<Rightarrow> world \<Rightarrow> outcome" where
  "syncperms dst src w =
     (let r1 = Stat dst w; r2 = Stat src w in
      if IsNotExist r1 \<or> IsNotExist r2 then (None, w)
      else
        (case r1 of Inl e \<Rightarrow> (Some e, w) | Inr d \<Rightarrow>
        (case r2 of Inl e \<Rightarrow> (Some e, w) | Inr s \<Rightarrow>
           if Perm (mode d) = Perm (mode s) then (None, w)
           else Chmod dst (Perm (mode s)) w)))"

subsection \<open>sync (lines 101-167)\<close>

text \<open>Line 106: a failing stat of dst panics unless the error is ENOENT, in which
  case \<open>d\<close> is nil.\<close>

fun nil_if_missing :: "error + entry \<Rightarrow> error + entry option" where
  "nil_if_missing (Inr d) = Inr (Some d)"
| "nil_if_missing (Inl e) = (if e = ENOENT then Inr None else Inl e)"

text \<open>Lines 113-131: src is a file.\<close>

definition sync_file :: "entry option \<Rightarrow> path \<Rightarrow> path \<Rightarrow> world \<Rightarrow> outcome" where
  "sync_file d dst src w =
     and_then
       (case d of Some (Dir _) \<Rightarrow> RemoveAll dst w | _ \<Rightarrow> (None, w))
       (\<lambda>w1. case equal dst src w1 of
          (Inl e, w2) \<Rightarrow> (Some e, w2)
        | (Inr True, w2) \<Rightarrow> (None, w2)
        | (Inr False, w2) \<Rightarrow>
            and_then (Create dst w2)
              (\<lambda>w3. case Open src w3 of
                 Inl e \<Rightarrow> (Some e, w3)
               | Inr sf \<Rightarrow> Copy dst sf w3))"

text \<open>Lines 135-142: src is a directory; make dst one.\<close>

definition make_dir :: "entry option \<Rightarrow> path \<Rightarrow> world \<Rightarrow> outcome" where
  "make_dir d dst w =
     (case d of
        None \<Rightarrow> MkdirAll dst 493 w
      | Some (File _ _) \<Rightarrow> and_then (Remove dst w) (MkdirAll dst 493)
      | Some (Dir _) \<Rightarrow> (None, w))"

text \<open>Lines 150-155: the loop over the names read from src. \<open>rec\<close> is the recursive
  call; \<open>None\<close> is a call that did not return.\<close>

fun sync_each ::
  "(path \<Rightarrow> path \<Rightarrow> world \<Rightarrow> outcome option) \<Rightarrow> path \<Rightarrow> path \<Rightarrow> string list \<Rightarrow> world
   \<Rightarrow> outcome option" where
  "sync_each rec dst src [] w = Some (None, w)"
| "sync_each rec dst src (n # ns) w =
     (case rec (dst @ [n]) (src @ [n]) w of
        None \<Rightarrow> None
      | Some (Some e, w1) \<Rightarrow> Some (Some e, w1)
      | Some (None, w1) \<Rightarrow> sync_each rec dst src ns w1)"

text \<open>Lines 161-165: the loop over the names read from dst. When it runs, the map
  \<open>m\<close> holds every name read from src.\<close>

fun remove_extra :: "path \<Rightarrow> string list \<Rightarrow> string list \<Rightarrow> world \<Rightarrow> outcome" where
  "remove_extra dst m [] w = (None, w)"
| "remove_extra dst m (n # ns) w =
     (if n \<in> set m then remove_extra dst m ns w
      else and_then (RemoveAll (dst @ [n]) w) (remove_extra dst m ns))"

definition sync_dir ::
  "(path \<Rightarrow> path \<Rightarrow> world \<Rightarrow> outcome option) \<Rightarrow> bool \<Rightarrow> entry option \<Rightarrow> path \<Rightarrow> path
   \<Rightarrow> world \<Rightarrow> outcome option" where
  "sync_dir rec del d dst src w =
     (case make_dir d dst w of
        (Some e, w1) \<Rightarrow> Some (Some e, w1)
      | (None, w1) \<Rightarrow>
          (case ReadDir src w1 of
             Inl e \<Rightarrow> Some (Some e, w1)
           | Inr m \<Rightarrow>
               (case sync_each rec dst src m w1 of
                  None \<Rightarrow> None
                | Some (Some e, w2) \<Rightarrow> Some (Some e, w2)
                | Some (None, w2) \<Rightarrow>
                    if del then
                      (case ReadDir dst w2 of
                         Inl e \<Rightarrow> Some (Some e, w2)
                       | Inr ds \<Rightarrow> Some (remove_extra dst m ds w2))
                    else Some (None, w2))))"

definition sync_body ::
  "(path \<Rightarrow> path \<Rightarrow> world \<Rightarrow> outcome option) \<Rightarrow> bool \<Rightarrow> path \<Rightarrow> path \<Rightarrow> world
   \<Rightarrow> outcome option" where
  "sync_body rec del dst src w =
     (case nil_if_missing (Stat dst w) of
        Inl e \<Rightarrow> Some (Some e, w)
      | Inr d \<Rightarrow>
          (case Stat src w of
             Inl e \<Rightarrow> Some (Some e, w)
           | Inr s \<Rightarrow>
               if \<not> IsDir s then Some (sync_file d dst src w)
               else sync_dir rec del d dst src w))"

text \<open>The recursion of \<^verbatim>\<open>sync\<close> follows the tree as the calls find it, and need
  not end when one path lies inside the other. The first argument bounds the depth
  of the recursion; \<open>None\<close> is a call that did not return within it. The deferred
  \<^verbatim>\<open>syncperms\<close> of line 103 runs when the body is left, by return or by panic.\<close>

primrec sync :: "nat \<Rightarrow> bool \<Rightarrow> path \<Rightarrow> path \<Rightarrow> world \<Rightarrow> outcome option" where
  "sync 0 del dst src w = None"
| "sync (Suc k) del dst src w =
     map_option (deferred (syncperms dst src)) (sync_body (sync k del) del dst src w)"

subsection \<open>syncRecover, Sync and SyncDel (lines 29-51, 86-98)\<close>

text \<open>\<^verbatim>\<open>syncRecover\<close> turns the panic of \<^verbatim>\<open>sync\<close> into the returned error.\<close>

definition syncRecover :: "nat \<Rightarrow> bool \<Rightarrow> path \<Rightarrow> path \<Rightarrow> world \<Rightarrow> outcome option" where
  "syncRecover k del dst src w = sync k del dst src w"

definition Sync :: "nat \<Rightarrow> path \<Rightarrow> path \<Rightarrow> world \<Rightarrow> outcome option" where
  "Sync k dst src w =
     (case checkDir dst src w of
        Inl e \<Rightarrow> Some (Some e, w)
      | Inr b \<Rightarrow> if b then Some (Some ErrFileOverDir, w) else syncRecover k False dst src w)"

definition SyncDel :: "nat \<Rightarrow> path \<Rightarrow> path \<Rightarrow> world \<Rightarrow> outcome option" where
  "SyncDel k dst src w =
     (case checkDir dst src w of
        Inl e \<Rightarrow> Some (Some e, w)
      | Inr b \<Rightarrow> if b then Some (Some ErrFileOverDir, w) else syncRecover k True dst src w)"
section \<open>Well-formed file systems\<close>

text \<open>Every entry has a name, and every entry below the top level lies in a directory.\<close>

definition well_formed :: "world \<Rightarrow> bool" where
  "well_formed w = (\<forall>p \<in> set (map fst (files w)). p \<noteq> [] \<and> walk w (parents p) = None)"

section \<open>What a call may change\<close>

text \<open>Outside the subtree at \<open>dst\<close> nothing that exists is changed; the only other
  change possible is that a missing directory on the way to \<open>dst\<close> is created.\<close>

definition unchanged_outside :: "path \<Rightarrow> world \<Rightarrow> world \<Rightarrow> bool" where
  "unchanged_outside dst w w' =
     (\<forall>q. \<not> prefix dst q \<longrightarrow>
        lookup w' q = lookup w q \<or> (lookup w q = None \<and> strict_prefix q dst))"

section \<open>Example file systems\<close>

text \<open>Files of different and of equal length, two empty files, and a directory.\<close>

definition wE :: world where
  "wE = \<lparr>files =
           [([''a''], File [1, 2] 420), ([''b''], File [1, 3] 384), ([''c''], File [1, 2, 3] 420),
            ([''z1''], File [] 420), ([''z2''], File [] 384), ([''e''], Dir 493),
            ([''e'', ''a''], File [1, 2] 420)],
          umask = 18, reads = 0, copies = 0\<rparr>"

text \<open>A non-empty directory \<open>d\<close>, an empty directory \<open>e\<close> and a file \<open>f\<close>.\<close>

definition wG :: world where
  "wG = \<lparr>files =
           [([''d''], Dir 493), ([''d'', ''x''], File [7] 420), ([''e''], Dir 493),
            ([''f''], File [88] 420)],
          umask = 18, reads = 0, copies = 0\<rparr>"

text \<open>Two files with the same bytes and different permissions (0644 and 0600).\<close>

definition wP :: world where
  "wP = \<lparr>files = [([''s''], File [5, 6] 420), ([''d''], File [5, 6] 384)],
          umask = 18, reads = 0, copies = 0\<rparr>"

text \<open>Below the top level, a file \<open>s/f\<close> faces a non-empty directory \<open>t/f\<close>.\<close>

definition wN :: world where
  "wN = \<lparr>files =
           [([''s''], Dir 493), ([''s'', ''f''], File [88] 420),
            ([''t''], Dir 493), ([''t'', ''f''], Dir 448), ([''t'', ''f'', ''x''], File [7] 420)],
          umask = 18, reads = 0, copies = 0\<rparr>"

text \<open>The source \<open>a/b\<close> lies inside the destination \<open>a\<close> and holds a file named
  like itself.\<close>

definition wA :: world where
  "wA = \<lparr>files =
           [([''a''], Dir 493), ([''a'', ''b''], Dir 493), ([''a'', ''b'', ''b''], File [1] 420)],
          umask = 18, reads = 0, copies = 0\<rparr>"

text \<open>The source \<open>a/b\<close> lies inside the destination \<open>a\<close> and holds a directory
  named like itself; \<open>a/b/m\<close> holds OLD, \<open>a/b/b/m\<close> holds NEW.\<close>

definition wX :: world where
  "wX = \<lparr>files =
           [([''a''], Dir 493), ([''a'', ''b''], Dir 493), ([''a'', ''b'', ''b''], Dir 493),
            ([''a'', ''b'', ''b'', ''m''], File [78, 69, 87] 420),
            ([''a'', ''b'', ''b'', ''x''], File [88] 420),
            ([''a'', ''b'', ''m''], File [79, 76, 68] 420)],
          umask = 18, reads = 0, copies = 0\<rparr>"

text \<open>The example of the specification: source \<open>{a, b}\<close>, destination \<open>{a, b, c}\<close>,
  with \<open>a\<close> and \<open>b\<close> already equal.\<close>

definition wD :: world where
  "wD = \<lparr>files =
           [([''s''], Dir 493), ([''s'', ''a''], File [1] 420), ([''s'', ''b''], File [2, 2] 420),
            ([''d''], Dir 493), ([''d'', ''a''], File [1] 420), ([''d'', ''b''], File [2, 2] 420),
            ([''d'', ''c''], File [3] 420)],
          umask = 18, reads = 0, copies = 0\<rparr>"

text \<open>A source tree with a file, a subdirectory and an empty directory, and a
  destination that differs from it in every way: a file where a directory is needed,
  a directory where a file is needed, other bytes, other permissions, extra entries.\<close>

definition wT :: world where
  "wT = \<lparr>files =
           [([''s''], Dir 488), ([''s'', ''f''], File [1, 2, 3] 416),
            ([''s'', ''g''], File [4] 420), ([''s'', ''u''], Dir 448),
            ([''s'', ''u'', ''h''], File [] 384), ([''s'', ''v''], Dir 493),
            ([''d''], Dir 493), ([''d'', ''f''], Dir 493), ([''d'', ''f'', ''y''], File [9] 420),
            ([''d'', ''g''], File [5] 511), ([''d'', ''u''], File [6, 6] 420),
            ([''d'', ''z''], Dir 493), ([''d'', ''z'', ''k''], File [7] 420)],
          umask = 18, reads = 0, copies = 0\<rparr>"

section \<open>Facts about the file system\<close>

declare read_loop.simps [simp del]



lemma lookup_put [simp]: "lookup (put p e w) = (lookup w)(p \<mapsto> e)"
  by (rule ext) (simp add: lookup_def put_def update_conv')

lemma put_fields [simp]:
  "umask (put p e w) = umask w" "reads (put p e w) = reads w" "copies (put p e w) = copies w"
  by (simp_all add: put_def)

lemma lookup_unlink [simp]: "lookup (unlink p w) = (lookup w)(p := None)"
  by (rule ext) (simp add: lookup_def unlink_def delete_conv')

lemma unlink_fields [simp]:
  "umask (unlink p w) = umask w" "reads (unlink p w) = reads w" "copies (unlink p w) = copies w"
  by (simp_all add: unlink_def)

lemma lookup_counters [simp]:
  "lookup (w\<lparr>reads := n\<rparr>) = lookup w" "lookup (w\<lparr>copies := n\<rparr>) = lookup w"
  by (simp_all add: lookup_def fun_eq_iff)

lemma map_of_filter_fst:
  "map_of (filter (\<lambda>(q, e). P q) xs) q = (if P q then map_of xs q else None)"
  by (induction xs) auto

lemma RemoveAll_ok [simp]: "fst (RemoveAll p w) = None"
  by (simp add: RemoveAll_def)

lemma lookup_RemoveAll:
  "lookup (snd (RemoveAll p w)) q = (if p \<noteq> [] \<and> prefix p q then None else lookup w q)"
  by (simp add: RemoveAll_def lookup_def map_of_filter_fst)

lemma RemoveAll_fields [simp]:
  "umask (snd (RemoveAll p w)) = umask w" "reads (snd (RemoveAll p w)) = reads w"
  "copies (snd (RemoveAll p w)) = copies w"
  by (simp_all add: RemoveAll_def)

lemma set_parents: "set (parents p) = {q. strict_prefix q p \<and> q \<noteq> []}"
proof (intro set_eqI iffI)
  fix q assume "q \<in> set (parents p)"
  then obtain i where i: "1 \<le> i" "i < length p" and q: "q = take i p"
    by (auto simp: parents_def)
  then have "prefix q p" "length q < length p" "q \<noteq> []"
    by (auto simp: take_is_prefix)
  then show "q \<in> {q. strict_prefix q p \<and> q \<noteq> []}"
    by (auto simp: strict_prefix_def)
next
  fix q assume "q \<in> {q. strict_prefix q p \<and> q \<noteq> []}"
  then obtain zs where p: "p = q @ zs" and "zs \<noteq> []" "q \<noteq> []"
    by (auto simp: strict_prefix_def prefix_def)
  then have "q = take (length q) p" "1 \<le> length q" "length q < length p"
    by (auto simp: Suc_le_eq)
  then show "q \<in> set (parents p)"
    unfolding parents_def by (metis (no_types, lifting) atLeastLessThan_iff imageI set_map set_upt)
qed

lemma walk_None_iff: "walk w qs = None \<longleftrightarrow> (\<forall>q \<in> set qs. \<exists>m. lookup w q = Some (Dir m))"
  by (induction qs) (auto split: option.splits entry.splits)

lemma walk_cong: "(\<And>q. q \<in> set qs \<Longrightarrow> lookup w' q = lookup w q) \<Longrightarrow> walk w' qs = walk w qs"
  by (induction qs) (auto split: option.splits entry.splits)

lemma Stat_cong:
  assumes "\<And>q. prefix q p \<Longrightarrow> q \<noteq> [] \<Longrightarrow> lookup w' q = lookup w q"
  shows "Stat p w' = Stat p w"
proof -
  have "walk w' (parents p) = walk w (parents p)"
    by (rule walk_cong) (auto simp: set_parents strict_prefix_def assms)
  moreover have "p \<noteq> [] \<Longrightarrow> lookup w' p = lookup w p"
    using assms by simp
  ultimately show ?thesis by (auto simp: Stat_def split: option.splits)
qed

lemma Stat_Inr_iff:
  "Stat p w = Inr e \<longleftrightarrow>
     p \<noteq> [] \<and> (\<forall>q. strict_prefix q p \<and> q \<noteq> [] \<longrightarrow> (\<exists>m. lookup w q = Some (Dir m))) \<and> lookup w p = Some e"
proof -
  have "walk w (parents p) = None \<longleftrightarrow>
          (\<forall>q. strict_prefix q p \<and> q \<noteq> [] \<longrightarrow> (\<exists>m. lookup w q = Some (Dir m)))"
    by (auto simp: walk_None_iff set_parents)
  then show ?thesis
    by (cases "walk w (parents p)") (auto simp: Stat_def split: option.splits)
qed

lemma Stat_lookup: "Stat p w = Inr e \<Longrightarrow> lookup w p = Some e"
  by (simp add: Stat_Inr_iff)

lemma set_names_in: "set (names_in p w) = {n. lookup w (p @ [n]) \<noteq> None}"
proof -
  have "set (names_in p w) = {last q |q. q \<in> fst ` set (files w) \<and> q \<noteq> [] \<and> butlast q = p}"
    by (force simp: names_in_def)
  also have "\<dots> = {n. p @ [n] \<in> fst ` set (files w)}"
    by (metis (no_types, opaque_lifting) append_butlast_last_id butlast_snoc last_snoc snoc_eq_iff_butlast)
  finally show ?thesis
    by (simp add: lookup_def map_of_eq_None_iff)
qed

lemma distinct_names_in [simp]: "distinct (names_in p w)"
  by (simp add: names_in_def)

lemma well_formed_iff:
  "well_formed w \<longleftrightarrow> (\<forall>p e. lookup w p = Some e \<longrightarrow>
      p \<noteq> [] \<and> (\<forall>q. strict_prefix q p \<and> q \<noteq> [] \<longrightarrow> (\<exists>m. lookup w q = Some (Dir m))))"
proof -
  have dom: "\<And>p. (p \<in> fst ` set (files w)) = (\<exists>e. lookup w p = Some e)"
    by (metis lookup_def map_of_eq_None_iff not_None_eq)
  have "well_formed w \<longleftrightarrow> (\<forall>p. p \<in> fst ` set (files w) \<longrightarrow> p \<noteq> [] \<and> walk w (parents p) = None)"
    by (auto simp: well_formed_def)
  then show ?thesis
    by (simp add: dom walk_None_iff set_parents)
qed
section \<open>The content comparator\<close>

lemma read_loop_fst: "fst (read_loop r1 r2) = (r1 = r2)"
proof (induction r1 r2 rule: read_loop.induct)
  case (1 r1 r2)
  show ?case
  proof (cases "take 1000 r1 = take 1000 r2")
    case False
    then have "r1 \<noteq> r2" by auto
    with False show ?thesis by (subst read_loop.simps) simp
  next
    case same: True
    show ?thesis
    proof (cases "take 1000 r1 = []")
      case True
      with same have "r1 = []" "r2 = []" by auto
      then show ?thesis by (subst read_loop.simps) simp
    next
      case False
      with same have ih: "fst (read_loop (drop 1000 r1) (drop 1000 r2)) = (drop 1000 r1 = drop 1000 r2)"
        using 1 by simp
      have "(r1 = r2) = (drop 1000 r1 = drop 1000 r2)"
        using same by (metis append_take_drop_id)
      with ih same False show ?thesis
        by (subst read_loop.simps) (auto split: prod.splits)
    qed
  qed
qed

lemma read_loop_empty: "read_loop [] [] = (True, 2)"
  by (subst read_loop.simps) simp

lemma equal_files:
  assumes "Stat a w = Inr (File b1 m1)" and "Stat b w = Inr (File b2 m2)"
  shows "equal a b w =
    (if length b1 \<noteq> length b2 then (Inr False, w)
     else (Inr (b1 = b2), w\<lparr>reads := reads w + snd (read_loop b1 b2)\<rparr>))"
  using assms read_loop_fst [of b1 b2]
  by (auto simp: equal_def IsNotExist_def Open_def split: prod.splits)

lemma equal_missing:
  "IsNotExist (Stat a w) \<or> IsNotExist (Stat b w) \<Longrightarrow> equal a b w = (Inr False, w)"
  by (simp add: equal_def)

text \<open>
  C6. For two paths that stat as regular files, \<open>equal\<close> returns true exactly when
  the bytes of the two files are the same; and when the two sizes differ it returns
  false and leaves the world as it was, the counter of \<^verbatim>\<open>Read\<close> calls included.
\<close>

theorem equal_iff_same_bytes:
  assumes "Stat a w = Inr (File b1 m1)" and "Stat b w = Inr (File b2 m2)"
  shows "fst (equal a b w) = Inr (b1 = b2) \<and>
         (Size (File b1 m1) \<noteq> Size (File b2 m2) \<longrightarrow> equal a b w = (Inr False, w))"
  using equal_files [OF assms] by auto

theorem equal_iff_same_bytes_witness:
  "fst (equal [''a''] [''b''] wE) = Inr False \<and> fst (equal [''a''] [''e'', ''a''] wE) = Inr True
   \<and> equal [''a''] [''c''] wE = (Inr False, wE)"
proof -
  have a: "Stat [''a''] wE = Inr (File [1, 2] 420)" by code_simp
  have b: "Stat [''b''] wE = Inr (File [1, 3] 384)" by code_simp
  have c: "Stat [''c''] wE = Inr (File [1, 2, 3] 420)" by code_simp
  have e: "Stat [''e'', ''a''] wE = Inr (File [1, 2] 420)" by code_simp
  show ?thesis
    using equal_iff_same_bytes [OF a b] equal_iff_same_bytes [OF a c] equal_iff_same_bytes [OF a e]
    by simp
qed

text \<open>
  C9, as stated, at two empty files: \<open>equal\<close> reports them equal, but not without
  reading: after the size check it opens both and calls \<^verbatim>\<open>Read\<close> once on each.
\<close>

theorem equal_empty_files_counterexample:
  "Stat [''z1''] wE = Inr (File [] 420) \<and> Stat [''z2''] wE = Inr (File [] 384) \<and>
   fst (equal [''z1''] [''z2''] wE) = Inr True \<and>
   reads (snd (equal [''z1''] [''z2''] wE)) = reads wE + 2 \<and>
   reads (snd (equal [''z1''] [''z2''] wE)) \<noteq> reads wE"
  by code_simp

text \<open>
  C9, amended. For two paths that stat as empty regular files, \<open>equal\<close> returns true
  after exactly two calls of \<^verbatim>\<open>Read\<close>, one on each file, and changes nothing else.
\<close>

theorem equal_empty_files:
  assumes "Stat a w = Inr (File [] m1)" and "Stat b w = Inr (File [] m2)"
  shows "equal a b w = (Inr True, w\<lparr>reads := reads w + 2\<rparr>)"
  using equal_files [OF assms] by (simp add: read_loop_empty)

theorem equal_empty_files_witness:
  "equal [''z2''] [''z1''] wE = (Inr True, wE\<lparr>reads := reads wE + 2\<rparr>)"
proof -
  have a: "Stat [''z1''] wE = Inr (File [] 420)" by code_simp
  have b: "Stat [''z2''] wE = Inr (File [] 384)" by code_simp
  show ?thesis using equal_empty_files [OF b a] .
qed

section \<open>Every call leaves the rest of the file system alone\<close>

lemma uo_refl [simp]: "unchanged_outside p w w"
  by (simp add: unchanged_outside_def)

lemma uo_same: "lookup w' = lookup w \<Longrightarrow> unchanged_outside p w w'"
  by (simp add: unchanged_outside_def)

lemma uo_trans:
  "unchanged_outside p w w1 \<Longrightarrow> unchanged_outside p w1 w2 \<Longrightarrow> unchanged_outside p w w2"
  unfolding unchanged_outside_def by metis

lemma uo_below:
  assumes "prefix p p'" and "unchanged_outside p' w w'"
  shows "unchanged_outside p w w'"
  unfolding unchanged_outside_def
proof (intro allI impI)
  fix q assume q: "\<not> prefix p q"
  with assms(1) have "\<not> prefix p' q" by auto
  with assms(2) have "lookup w' q = lookup w q \<or> (lookup w q = None \<and> strict_prefix q p')"
    by (simp add: unchanged_outside_def)
  moreover have "strict_prefix q p' \<Longrightarrow> strict_prefix q p"
    using assms(1) q by (metis prefix_order.less_le prefix_same_cases)
  ultimately show "lookup w' q = lookup w q \<or> (lookup w q = None \<and> strict_prefix q p)"
    by blast
qed

lemma uo_put: "prefix p q \<Longrightarrow> unchanged_outside p w (put q e w)"
  by (auto simp: unchanged_outside_def)

lemma uo_put_missing:
  "lookup w q = None \<Longrightarrow> prefix q p \<Longrightarrow> unchanged_outside p w (put q e w)"
  by (auto simp: unchanged_outside_def strict_prefix_def)

lemma uo_RemoveAll: "prefix p q \<Longrightarrow> unchanged_outside p w (snd (RemoveAll q w))"
  by (auto simp: unchanged_outside_def lookup_RemoveAll)

lemma uo_unlink: "prefix p q \<Longrightarrow> unchanged_outside p w (unlink q w)"
  by (auto simp: unchanged_outside_def)

lemma uo_Remove: "unchanged_outside p w (snd (Remove p w))"
  by (auto simp: Remove_def uo_unlink split: sum.splits entry.splits)

lemma uo_Create: "unchanged_outside p w (snd (Create p w))"
  by (auto simp: Create_def uo_put split: sum.splits entry.splits)

lemma uo_Copy: "unchanged_outside p w (snd (Copy p sf w))"
  by (auto simp: Copy_def unchanged_outside_def split: option.splits entry.splits)

lemma uo_Chmod: "unchanged_outside p w (snd (Chmod p m w))"
  by (auto simp: Chmod_def uo_put split: sum.splits)

lemma uo_mkdirs:
  "\<forall>q \<in> set qs. prefix q p \<Longrightarrow> unchanged_outside p w (snd (mkdirs qs perm w))"
proof (induction qs arbitrary: w)
  case Nil
  then show ?case by simp
next
  case (Cons q qs)
  show ?case
  proof (cases "lookup w q")
    case None
    have "unchanged_outside p w (put q (Dir (perm AND NOT (umask w))) w)"
      using None Cons.prems by (simp add: uo_put_missing)
    moreover have "unchanged_outside p (put q (Dir (perm AND NOT (umask w))) w)
        (snd (mkdirs qs perm (put q (Dir (perm AND NOT (umask w))) w)))"
      using Cons.prems by (intro Cons.IH) simp
    ultimately show ?thesis using None by (auto intro: uo_trans)
  next
    case (Some e)
    then show ?thesis using Cons by (cases e) auto
  qed
qed

lemma uo_MkdirAll: "unchanged_outside p w (snd (MkdirAll p perm w))"
  by (auto simp: MkdirAll_def set_parents strict_prefix_def intro!: uo_mkdirs)

lemma equal_lookup [simp]: "lookup (snd (equal a b w)) = lookup w"
  by (auto simp: equal_def Let_def split: sum.splits entry.splits prod.splits)

lemma uo_syncperms: "unchanged_outside p w (snd (syncperms p src w))"
  by (auto simp: syncperms_def Let_def uo_Chmod split: sum.splits)

lemma and_then_cases:
  "and_then out g = (r, w') \<Longrightarrow>
     (\<exists>e. out = (Some e, w') \<and> r = Some e) \<or> (\<exists>w1. out = (None, w1) \<and> g w1 = (r, w'))"
  by (auto simp: and_then_def split: prod.splits option.splits)

lemma uo_and_then:
  assumes "unchanged_outside p w (snd out)" and "\<And>w1. unchanged_outside p w1 (snd (g w1))"
  shows "unchanged_outside p w (snd (and_then out g))"
  using assms by (auto simp: and_then_def split: prod.splits option.splits intro: uo_trans)

lemma uo_sync_file: "unchanged_outside p w (snd (sync_file d p src w))"
  unfolding sync_file_def
proof (rule uo_and_then)
  show "unchanged_outside p w (snd (case d of Some (Dir _) \<Rightarrow> RemoveAll p w | _ \<Rightarrow> (None, w)))"
    by (auto simp: uo_RemoveAll split: option.splits entry.splits)
next
  fix w1
  have a: "unchanged_outside p w1 (snd (equal p src w1))"
    by (simp add: uo_same)
  have b: "\<And>w2. unchanged_outside p w2
      (snd (and_then (Create p w2) (\<lambda>w3. case Open src w3 of Inl e \<Rightarrow> (Some e, w3) | Inr sf \<Rightarrow> Copy p sf w3)))"
    by (rule uo_and_then) (auto simp: uo_Create uo_Copy split: sum.splits)
  show "unchanged_outside p w1
     (snd (case equal p src w1 of
         (Inl e, w2) \<Rightarrow> (Some e, w2)
       | (Inr True, w2) \<Rightarrow> (None, w2)
       | (Inr False, w2) \<Rightarrow>
           and_then (Create p w2)
             (\<lambda>w3. case Open src w3 of Inl e \<Rightarrow> (Some e, w3) | Inr sf \<Rightarrow> Copy p sf w3)))"
    using a b by (auto split: prod.splits sum.splits bool.splits intro: uo_trans)
qed

lemma uo_make_dir: "unchanged_outside p w (snd (make_dir d p w))"
  by (auto simp: make_dir_def uo_MkdirAll uo_Remove split: option.splits entry.splits
      intro!: uo_and_then)

lemma uo_remove_extra: "unchanged_outside p w (snd (remove_extra p m ns w))"
proof (induction ns arbitrary: w)
  case Nil
  then show ?case by simp
next
  case (Cons n ns)
  then show ?case by (auto intro!: uo_and_then uo_RemoveAll)
qed

lemma uo_sync_each:
  assumes rec: "\<And>d s w r w'. rec d s w = Some (r, w') \<Longrightarrow> unchanged_outside d w w'"
    and "sync_each rec dst src ns w = Some (r, w')"
  shows "unchanged_outside dst w w'"
  using assms(2)
proof (induction ns arbitrary: w)
  case Nil
  then show ?case by simp
next
  case (Cons n ns)
  from Cons.prems obtain r1 w1 where 1: "rec (dst @ [n]) (src @ [n]) w = Some (r1, w1)"
    by (auto split: option.splits)
  then have "unchanged_outside (dst @ [n]) w w1" by (rule rec)
  then have a: "unchanged_outside dst w w1" by (rule uo_below [rotated]) simp
  show ?case
  proof (cases r1)
    case None
    with 1 Cons.prems have "sync_each rec dst src ns w1 = Some (r, w')" by simp
    then have "unchanged_outside dst w1 w'" by (rule Cons.IH)
    with a show ?thesis by (rule uo_trans)
  next
    case (Some e)
    with 1 Cons.prems have "w' = w1" by simp
    with a show ?thesis by simp
  qed
qed

lemma uo_sync_dir:
  assumes rec: "\<And>d s w r w'. rec d s w = Some (r, w') \<Longrightarrow> unchanged_outside d w w'"
    and run: "sync_dir rec del d dst src w = Some (r, w')"
  shows "unchanged_outside dst w w'"
proof -
  obtain r1 w1 where 1: "make_dir d dst w = (r1, w1)" by (cases "make_dir d dst w")
  have a: "unchanged_outside dst w w1" using uo_make_dir [of dst w d] 1 by simp
  show ?thesis
  proof (cases r1)
    case (Some e)
    with 1 run have "w' = w1" by (simp add: sync_dir_def)
    with a show ?thesis by simp
  next
    case None
    show ?thesis
    proof (cases "ReadDir src w1")
      case (Inl e)
      with 1 None run have "w' = w1" by (simp add: sync_dir_def)
      with a show ?thesis by simp
    next
      case (Inr m)
      with 1 None run obtain r2 w2 where 2: "sync_each rec dst src m w1 = Some (r2, w2)"
        by (auto simp: sync_dir_def split: option.splits)
      have b: "unchanged_outside dst w1 w2" using rec 2 by (rule uo_sync_each)
      have "w' = w2 \<or> (\<exists>ds. w' = snd (remove_extra dst m ds w2))"
        using 1 None Inr 2 run
        by (auto simp: sync_dir_def eq_snd_iff split: option.splits if_splits sum.splits)
      then have "unchanged_outside dst w2 w'"
        using uo_remove_extra [of dst w2 m] by auto
      with a b show ?thesis by (blast intro: uo_trans)
    qed
  qed
qed

lemma uo_sync_body:
  assumes rec: "\<And>d s w r w'. rec d s w = Some (r, w') \<Longrightarrow> unchanged_outside d w w'"
    and run: "sync_body rec del dst src w = Some (r, w')"
  shows "unchanged_outside dst w w'"
proof -
  from run have "w' = w \<or> (\<exists>d. w' = snd (sync_file d dst src w))
      \<or> (\<exists>d. sync_dir rec del d dst src w = Some (r, w'))"
    by (auto simp: sync_body_def eq_snd_iff split: sum.splits if_splits)
  then show ?thesis
    using uo_sync_file [of dst w _ src] uo_sync_dir [of rec del _ dst src w r w'] rec by auto
qed

lemma deferred_cases:
  "deferred g (r1, w1) = (r, w') \<Longrightarrow> w' = snd (g w1) \<and> (r = r1 \<or> r = fst (g w1))"
  by (auto simp: deferred_def split: prod.splits option.splits)

lemma uo_sync: "sync k del dst src w = Some (r, w') \<Longrightarrow> unchanged_outside dst w w'"
proof (induction k arbitrary: dst src w r w')
  case 0
  then show ?case by simp
next
  case (Suc k)
  from Suc.prems obtain r1 w1 where 1: "sync_body (sync k del) del dst src w = Some (r1, w1)"
    and 2: "deferred (syncperms dst src) (r1, w1) = (r, w')"
    by auto
  have "unchanged_outside dst w w1"
    using Suc.IH 1 by (rule uo_sync_body)
  moreover have "unchanged_outside dst w1 w'"
    using deferred_cases [OF 2] uo_syncperms [of dst w1 src] by simp
  ultimately show ?case by (rule uo_trans)
qed
section \<open>Every call keeps the file system well formed\<close>

lemma well_formed_cong:
  assumes "lookup w' = lookup w"
  shows "well_formed w' = well_formed w"
  unfolding well_formed_iff assms ..

lemma wf_counters [simp]:
  "well_formed (w\<lparr>reads := n\<rparr>) = well_formed w" "well_formed (w\<lparr>copies := n\<rparr>) = well_formed w"
  by (rule well_formed_cong, simp)+

lemma wf_nonempty: "well_formed w \<Longrightarrow> lookup w p = Some e \<Longrightarrow> p \<noteq> []"
  unfolding well_formed_iff by blast

lemma wf_parent:
  "well_formed w \<Longrightarrow> lookup w p = Some e \<Longrightarrow> strict_prefix q p \<Longrightarrow> q \<noteq> [] \<Longrightarrow>
     \<exists>m. lookup w q = Some (Dir m)"
  unfolding well_formed_iff by blast

lemma wf_file_leaf:
  assumes "well_formed w" and "lookup w p = Some (File b m)" and "strict_prefix p q"
  shows "lookup w q = None"
proof (rule ccontr)
  assume "lookup w q \<noteq> None"
  then obtain e where "lookup w q = Some e" by auto
  moreover have "p \<noteq> []" using assms(1,2) by (rule wf_nonempty)
  ultimately obtain m' where "lookup w p = Some (Dir m')"
    using wf_parent [OF assms(1) _ assms(3)] by blast
  with assms(2) show False by simp
qed

lemma wf_missing_below:
  assumes "well_formed w" and "lookup w p = None" and "p \<noteq> []" and "prefix p q"
  shows "lookup w q = None"
proof (rule ccontr)
  assume "lookup w q \<noteq> None"
  then obtain e where e: "lookup w q = Some e" by auto
  with assms(2) have "p \<noteq> q" by auto
  with assms(4) have "strict_prefix p q" by (simp add: strict_prefix_def)
  from wf_parent [OF assms(1) e this assms(3)] assms(2) show False by simp
qed

lemma wf_Stat: "well_formed w \<Longrightarrow> lookup w p = Some e \<Longrightarrow> Stat p w = Inr e"
  unfolding Stat_Inr_iff well_formed_iff by blast

lemma wf_Stat_iff: "well_formed w \<Longrightarrow> Stat p w = Inr e \<longleftrightarrow> lookup w p = Some e"
  using wf_Stat Stat_lookup by blast

lemma wf_put:
  assumes "well_formed w" and "p \<noteq> []"
    and "\<And>q. strict_prefix q p \<Longrightarrow> q \<noteq> [] \<Longrightarrow> \<exists>m. lookup w q = Some (Dir m)"
    and "IsDir e \<or> (\<forall>q. strict_prefix p q \<longrightarrow> lookup w q = None)"
  shows "well_formed (put p e w)"
  unfolding well_formed_iff
proof (intro allI impI conjI)
  fix p' e' assume l: "lookup (put p e w) p' = Some e'"
  show "p' \<noteq> []" using l assms(1,2) by (auto simp: wf_nonempty split: if_splits)
  fix q assume q: "strict_prefix q p' \<and> q \<noteq> []"
  show "\<exists>m. lookup (put p e w) q = Some (Dir m)"
  proof (cases "p' = p")
    case True
    with q assms(3) show ?thesis by (auto simp: strict_prefix_def)
  next
    case False
    with l have l': "lookup w p' = Some e'" by simp
    show ?thesis
    proof (cases "q = p")
      case True
      with q l' assms(4) have "IsDir e" by auto
      with True show ?thesis by (cases e) auto
    next
      case False
      with l' q assms(1) show ?thesis by (auto dest: wf_parent)
    qed
  qed
qed

lemma wf_put_existing:
  assumes "well_formed w" and "lookup w p = Some e" and "IsDir e' = IsDir e"
  shows "well_formed (put p e' w)" 
proof (rule wf_put)
  show "well_formed w" by fact
  show "p \<noteq> []" using assms by (auto dest: wf_nonempty)
  show "\<And>q. strict_prefix q p \<Longrightarrow> q \<noteq> [] \<Longrightarrow> \<exists>m. lookup w q = Some (Dir m)"
    using assms by (auto dest: wf_parent)
  show "IsDir e' \<or> (\<forall>q. strict_prefix p q \<longrightarrow> lookup w q = None)"
    using assms by (cases e; cases e') (auto dest: wf_file_leaf)
qed

lemma wf_RemoveAll: "well_formed w \<Longrightarrow> well_formed (snd (RemoveAll p w))"
  unfolding well_formed_iff lookup_RemoveAll
  by (metis option.distinct(1) prefix_order.dual_order.trans prefix_order.less_imp_le)

lemma wf_unlink:
  assumes "well_formed w" and "\<And>q. strict_prefix p q \<Longrightarrow> lookup w q = None"
  shows "well_formed (unlink p w)"
  unfolding well_formed_iff
proof (intro allI impI conjI)
  fix p' e' assume l: "lookup (unlink p w) p' = Some e'"
  then have l': "lookup w p' = Some e'" "p' \<noteq> p" by (auto split: if_splits)
  show "p' \<noteq> []" using l' assms(1) by (auto dest: wf_nonempty)
  fix q assume q: "strict_prefix q p' \<and> q \<noteq> []"
  with l' assms(2) have "q \<noteq> p" by auto
  with q l' assms(1) show "\<exists>m. lookup (unlink p w) q = Some (Dir m)"
    by (auto dest: wf_parent)
qed

lemma wf_empty_dir:
  assumes "well_formed w" and "names_in p w = []" and "p \<noteq> []" and "strict_prefix p q"
  shows "lookup w q = None"
proof (rule ccontr)
  assume "lookup w q \<noteq> None"
  then obtain e where e: "lookup w q = Some e" by auto
  from assms(4) obtain ys where "q = p @ ys" "ys \<noteq> []"
    by (auto simp: strict_prefix_def prefix_def)
  then obtain n zs where q: "q = p @ n # zs" by (cases ys) auto
  have "lookup w (p @ [n]) \<noteq> None"
  proof (cases "zs = []")
    case True
    with q e show ?thesis by simp
  next
    case False
    with q have "strict_prefix (p @ [n]) q" by (auto simp: strict_prefix_def prefix_def)
    with assms(1) e show ?thesis by (auto dest: wf_parent)
  qed
  then have "n \<in> set (names_in p w)" by (simp add: set_names_in)
  with assms(2) show False by simp
qed

lemma wf_Remove: "well_formed w \<Longrightarrow> well_formed (snd (Remove p w))"
  by (auto simp: Remove_def Stat_Inr_iff split: sum.splits entry.splits
      intro!: wf_unlink dest: wf_file_leaf wf_empty_dir)

lemma wf_Create: "well_formed w \<Longrightarrow> well_formed (snd (Create p w))"
proof (cases "Stat p w")
  case (Inr e)
  assume w: "well_formed w"
  show ?thesis
  proof (cases e)
    case (File b m)
    with Inr w show ?thesis
      by (auto simp: Create_def intro!: wf_put_existing [where e = e] dest: Stat_lookup)
  next
    case (Dir m)
    with Inr w show ?thesis by (simp add: Create_def)
  qed
next
  case (Inl err)
  assume w: "well_formed w"
  show ?thesis
  proof (cases "err = ENOENT \<and> p \<noteq> [] \<and> walk w (parents p) = None")
    case False
    with Inl w show ?thesis by (auto simp: Create_def)
  next
    case True
    with Inl have none: "lookup w p = None"
      by (auto simp: Stat_def split: option.splits)
    have "well_formed (put p (File [] (438 AND NOT (umask w))) w)"
    proof (rule wf_put)
      show "well_formed w" by fact
      show "p \<noteq> []" using True by simp
      show "\<And>q. strict_prefix q p \<Longrightarrow> q \<noteq> [] \<Longrightarrow> \<exists>m. lookup w q = Some (Dir m)"
        using True by (auto simp: walk_None_iff set_parents)
      show "IsDir (File [] (438 AND NOT (umask w))) \<or> (\<forall>q. strict_prefix p q \<longrightarrow> lookup w q = None)"
        using w none True by (auto dest: wf_missing_below simp: strict_prefix_def)
    qed
    with Inl True show ?thesis by (simp add: Create_def)
  qed
qed

lemma wf_Copy:
  assumes "well_formed w"
  shows "well_formed (snd (Copy p sf w))"
proof -
  have "well_formed (put p (File bs m) (w\<lparr>copies := copies w + 1\<rparr>))"
    if "lookup w p = Some (File b m)" for bs b m
    using assms that
    by (intro wf_put_existing [where e = "File b m"]) simp_all
  then show ?thesis
    using assms by (auto simp: Copy_def split: entry.splits option.splits)
qed

lemma wf_Chmod: "well_formed w \<Longrightarrow> well_formed (snd (Chmod p m w))"
proof (cases "Stat p w")
  case (Inl e)
  assume "well_formed w"
  with Inl show ?thesis by (simp add: Chmod_def)
next
  case (Inr e)
  assume "well_formed w"
  moreover have "IsDir (set_mode (m AND chmod_mask) e) = IsDir e" by (cases e) auto
  ultimately show ?thesis using Inr
    by (auto simp: Chmod_def intro!: wf_put_existing [where e = e] dest: Stat_lookup)
qed

lemma wf_syncperms: "well_formed w \<Longrightarrow> well_formed (snd (syncperms p src w))"
  by (auto simp: syncperms_def Let_def wf_Chmod split: sum.splits)

lemma mkdirs_keeps:
  "lookup w q = Some e \<Longrightarrow> lookup (snd (mkdirs qs perm w)) q = Some e"
proof (induction qs arbitrary: w)
  case Nil
  then show ?case by simp
next
  case (Cons a qs)
  show ?case
  proof (cases "lookup w a")
    case None
    with Cons.prems have "a \<noteq> q" by auto
    with Cons.prems have "lookup (put a (Dir (perm AND NOT (umask w))) w) q = Some e" by simp
    from Cons.IH [OF this] None show ?thesis by simp
  next
    case (Some x)
    with Cons show ?thesis by (cases x) auto
  qed
qed

lemma mkdirs_Dir:
  "fst (mkdirs qs perm w) = None \<Longrightarrow> q \<in> set qs \<Longrightarrow>
     \<exists>m. lookup (snd (mkdirs qs perm w)) q = Some (Dir m)"
proof (induction qs arbitrary: w)
  case Nil
  then show ?case by simp
next
  case (Cons a qs)
  show ?case
  proof (cases "lookup w a")
    case None
    let ?w1 = "put a (Dir (perm AND NOT (umask w))) w"
    from None Cons.prems(1) have ok: "fst (mkdirs qs perm ?w1) = None" by simp
    show ?thesis
    proof (cases "q \<in> set qs")
      case True
      from Cons.IH [OF ok True] None show ?thesis by simp
    next
      case False
      with Cons.prems(2) have "q = a" by simp
      then have "lookup ?w1 q = Some (Dir (perm AND NOT (umask w)))" by simp
      from mkdirs_keeps [OF this] None show ?thesis by auto
    qed
  next
    case (Some x)
    show ?thesis
    proof (cases x)
      case (File b m)
      with Some Cons.prems show ?thesis by simp
    next
      case (Dir m)
      with Some Cons.prems(1) have ok: "fst (mkdirs qs perm w) = None" by simp
      show ?thesis
      proof (cases "q \<in> set qs")
        case True
        from Cons.IH [OF ok True] Some Dir show ?thesis by simp
      next
        case False
        with Cons.prems(2) have "q = a" by simp
        with Some Dir have "lookup w q = Some (Dir m)" by simp
        from mkdirs_keeps [OF this] Some Dir show ?thesis by auto
      qed
    qed
  qed
qed

lemma parents_snoc: "p \<noteq> [] \<Longrightarrow> parents p @ [p] = map (\<lambda>i. take i p) [1..<Suc (length p)]"
  by (simp add: parents_def Suc_le_eq)

lemma wf_mkdirs:
  assumes "well_formed w" and "1 \<le> j"
    and "\<And>i. 1 \<le> i \<Longrightarrow> i < j \<Longrightarrow> \<exists>m. lookup w (take i p) = Some (Dir m)"
  shows "well_formed (snd (mkdirs (map (\<lambda>i. take i p) [j..<Suc (length p)]) perm w))"
  using assms
proof (induction "Suc (length p) - j" arbitrary: j w)
  case 0
  then show ?case by simp
next
  case (Suc n)
  then have j: "j \<le> length p" "1 \<le> j" by auto
  then have upt: "[j..<Suc (length p)] = j # [Suc j..<Suc (length p)]"
    by (simp add: upt_conv_Cons)
  let ?q = "take j p"
  let ?rest = "map (\<lambda>i. take i p) [Suc j..<Suc (length p)]"
  have n: "n = Suc (length p) - Suc j" using Suc.hyps(2) by simp
  have qne: "?q \<noteq> []" using j by auto
  show ?case
  proof (cases "lookup w ?q")
    case None
    let ?w1 = "put ?q (Dir (perm AND NOT (umask w))) w"
    have wf1: "well_formed ?w1"
    proof (rule wf_put)
      show "well_formed w" by fact
      show "?q \<noteq> []" by fact
      show "\<exists>m. lookup w q = Some (Dir m)" if "strict_prefix q ?q" "q \<noteq> []" for q
      proof -
        from that obtain zs where zs: "?q = q @ zs" "zs \<noteq> []"
          by (auto simp: strict_prefix_def prefix_def)
        then have "length q < length ?q" by (metis length_append length_greater_0_conv less_add_same_cancel1)
        with j have lq: "length q < j" by simp
        have "prefix q p" using zs(1) by (metis prefix_def prefix_order.trans take_is_prefix)
        then have "q = take (length q) p" by (metis append_eq_conv_conj prefix_def)
        moreover have "1 \<le> length q" using that(2) by (cases q) auto
        ultimately show ?thesis using Suc.prems(3) [of "length q"] lq by simp
      qed
      show "IsDir (Dir (perm AND NOT (umask w))) \<or> (\<forall>q. strict_prefix ?q q \<longrightarrow> lookup w q = None)"
        by simp
    qed
    have "well_formed (snd (mkdirs ?rest perm ?w1))"
    proof (rule Suc.hyps(1) [OF n wf1])
      show "1 \<le> Suc j" by simp
      fix i assume i: "1 \<le> i" "i < Suc j"
      show "\<exists>m. lookup ?w1 (take i p) = Some (Dir m)"
      proof (cases "i = j")
        case True
        then show ?thesis by simp
      next
        case False
        with i have "i < j" by simp
        with j have "length (take i p) \<noteq> length ?q" by simp
        then have "take i p \<noteq> ?q" by metis
        with Suc.prems(3) [OF i(1) \<open>i < j\<close>] show ?thesis by simp
      qed
    qed
    with None upt show ?thesis by simp
  next
    case (Some x)
    show ?thesis
    proof (cases x)
      case (File b m)
      with Some upt Suc.prems(1) show ?thesis by simp
    next
      case (Dir m)
      have "well_formed (snd (mkdirs ?rest perm w))"
      proof (rule Suc.hyps(1) [OF n Suc.prems(1)])
        show "1 \<le> Suc j" by simp
        fix i assume i: "1 \<le> i" "i < Suc j"
        show "\<exists>m. lookup w (take i p) = Some (Dir m)"
          using Suc.prems(3) [OF i(1)] i(2) Some Dir by (cases "i = j") auto
      qed
      with Some Dir upt show ?thesis by simp
    qed
  qed
qed

lemma wf_MkdirAll: "well_formed w \<Longrightarrow> well_formed (snd (MkdirAll p perm w))"
  using wf_mkdirs [of w 1 p perm] by (simp add: MkdirAll_def parents_snoc)

lemma MkdirAll_Dir:
  "MkdirAll p perm w = (None, w') \<Longrightarrow> \<exists>m. lookup w' p = Some (Dir m)"
  using mkdirs_Dir [of "parents p @ [p]" perm w p]
  by (auto simp: MkdirAll_def split: if_splits)

lemma MkdirAll_keeps:
  "lookup w q = Some e \<Longrightarrow> lookup (snd (MkdirAll p perm w)) q = Some e"
  by (simp add: MkdirAll_def mkdirs_keeps)

lemma wf_and_then:
  assumes "well_formed (snd out)" and "\<And>w1. well_formed w1 \<Longrightarrow> well_formed (snd (g w1))"
  shows "well_formed (snd (and_then out g))"
  using assms by (auto simp: and_then_def split: prod.splits option.splits)

lemma wf_equal: "well_formed w \<Longrightarrow> well_formed (snd (equal a b w))"
  using well_formed_cong [of "snd (equal a b w)" w] by simp

lemma wf_sync_file:
  assumes "well_formed w"
  shows "well_formed (snd (sync_file d p src w))"
  unfolding sync_file_def
proof (rule wf_and_then)
  show "well_formed (snd (case d of Some (Dir _) \<Rightarrow> RemoveAll p w | _ \<Rightarrow> (None, w)))"
    using assms by (auto simp: wf_RemoveAll split: option.splits entry.splits)
next
  fix w1 assume w1: "well_formed w1"
  have b: "\<And>w2. well_formed w2 \<Longrightarrow> well_formed
      (snd (and_then (Create p w2) (\<lambda>w3. case Open src w3 of Inl e \<Rightarrow> (Some e, w3) | Inr sf \<Rightarrow> Copy p sf w3)))"
    by (rule wf_and_then) (auto simp: wf_Create wf_Copy split: sum.splits)
  obtain r w2 where e: "equal p src w1 = (r, w2)" by (cases "equal p src w1")
  with wf_equal [OF w1, of p src] have "well_formed w2" by simp
  with e b show "well_formed
     (snd (case equal p src w1 of
         (Inl e, w2) \<Rightarrow> (Some e, w2)
       | (Inr True, w2) \<Rightarrow> (None, w2)
       | (Inr False, w2) \<Rightarrow>
           and_then (Create p w2)
             (\<lambda>w3. case Open src w3 of Inl e \<Rightarrow> (Some e, w3) | Inr sf \<Rightarrow> Copy p sf w3)))"
    by (auto split: sum.splits bool.splits)
qed

lemma wf_make_dir: "well_formed w \<Longrightarrow> well_formed (snd (make_dir d p w))"
  by (auto simp: make_dir_def wf_MkdirAll wf_Remove split: option.splits entry.splits
      intro!: wf_and_then)

lemma wf_remove_extra: "well_formed w \<Longrightarrow> well_formed (snd (remove_extra p m ns w))"
proof (induction ns arbitrary: w)
  case Nil
  then show ?case by simp
next
  case (Cons n ns)
  then show ?case by (auto intro!: wf_and_then wf_RemoveAll)
qed

lemma wf_sync_each:
  assumes rec: "\<And>d s w r w'. well_formed w \<Longrightarrow> rec d s w = Some (r, w') \<Longrightarrow> well_formed w'"
    and "well_formed w" and "sync_each rec dst src ns w = Some (r, w')"
  shows "well_formed w'"
  using assms(2,3)
proof (induction ns arbitrary: w)
  case Nil
  then show ?case by simp
next
  case (Cons n ns)
  from Cons.prems obtain r1 w1 where 1: "rec (dst @ [n]) (src @ [n]) w = Some (r1, w1)"
    by (auto split: option.splits)
  with Cons.prems(1) have w1: "well_formed w1" by (rule rec)
  show ?case
  proof (cases r1)
    case None
    with 1 Cons.prems have "sync_each rec dst src ns w1 = Some (r, w')" by simp
    with w1 show ?thesis by (rule Cons.IH)
  next
    case (Some e)
    with 1 Cons.prems w1 show ?thesis by simp
  qed
qed

lemma wf_sync_dir:
  assumes rec: "\<And>d s w r w'. well_formed w \<Longrightarrow> rec d s w = Some (r, w') \<Longrightarrow> well_formed w'"
    and w: "well_formed w" and run: "sync_dir rec del d dst src w = Some (r, w')"
  shows "well_formed w'"
proof -
  obtain r1 w1 where 1: "make_dir d dst w = (r1, w1)" by (cases "make_dir d dst w")
  have w1: "well_formed w1" using wf_make_dir [OF w, of d dst] 1 by simp
  show ?thesis
  proof (cases r1)
    case (Some e)
    with 1 run w1 show ?thesis by (simp add: sync_dir_def)
  next
    case None
    show ?thesis
    proof (cases "ReadDir src w1")
      case (Inl e)
      with 1 None run w1 show ?thesis by (simp add: sync_dir_def)
    next
      case (Inr m)
      with 1 None run obtain r2 w2 where 2: "sync_each rec dst src m w1 = Some (r2, w2)"
        by (auto simp: sync_dir_def split: option.splits)
      have w2: "well_formed w2" using rec w1 2 by (rule wf_sync_each)
      have "w' = w2 \<or> (\<exists>ds. w' = snd (remove_extra dst m ds w2))"
        using 1 None Inr 2 run
        by (auto simp: sync_dir_def eq_snd_iff split: option.splits if_splits sum.splits)
      then show ?thesis using w2 wf_remove_extra by auto
    qed
  qed
qed

lemma wf_sync_body:
  assumes rec: "\<And>d s w r w'. well_formed w \<Longrightarrow> rec d s w = Some (r, w') \<Longrightarrow> well_formed w'"
    and w: "well_formed w" and run: "sync_body rec del dst src w = Some (r, w')"
  shows "well_formed w'"
proof -
  from run have "w' = w \<or> (\<exists>d. w' = snd (sync_file d dst src w))
      \<or> (\<exists>d. sync_dir rec del d dst src w = Some (r, w'))"
    by (auto simp: sync_body_def eq_snd_iff split: sum.splits if_splits)
  then show ?thesis
    using w wf_sync_file [OF w] wf_sync_dir [of rec w del _ dst src r w'] rec by auto
qed

lemma wf_sync: "well_formed w \<Longrightarrow> sync k del dst src w = Some (r, w') \<Longrightarrow> well_formed w'"
proof (induction k arbitrary: dst src w r w')
  case 0
  then show ?case by simp
next
  case (Suc k)
  from Suc.prems obtain r1 w1 where 1: "sync_body (sync k del) del dst src w = Some (r1, w1)"
    and 2: "deferred (syncperms dst src) (r1, w1) = (r, w')"
    by auto
  have "well_formed w1"
    using Suc.IH Suc.prems(1) 1 by (rule wf_sync_body)
  then show ?case
    using deferred_cases [OF 2] wf_syncperms by simp
qed
section \<open>The guard of Sync and SyncDel\<close>

lemma walk_not_guard: "walk w qs \<noteq> Some ErrFileOverDir"
  by (induction qs) (auto split: option.splits entry.splits)

lemma Stat_not_guard: "Stat p w \<noteq> Inl ErrFileOverDir"
  using walk_not_guard [of w "parents p"] by (auto simp: Stat_def split: option.splits)

lemma mkdirs_not_guard: "fst (mkdirs qs perm w) \<noteq> Some ErrFileOverDir"
  by (induction qs arbitrary: w) (auto split: option.splits entry.splits)

lemma and_then_not_guard:
  "fst out \<noteq> Some ErrFileOverDir \<Longrightarrow> (\<And>w1. fst (g w1) \<noteq> Some ErrFileOverDir) \<Longrightarrow>
     fst (and_then out g) \<noteq> Some ErrFileOverDir"
  by (auto simp: and_then_def split: prod.splits option.splits)

lemma and_then_err:
  "fst (and_then out g) = Some e \<Longrightarrow> fst out = Some e \<or> (\<exists>w1. fst (g w1) = Some e)"
  by (auto simp: and_then_def split: prod.splits option.splits)

lemma prims_not_guard:
  "fst (RemoveAll p w) \<noteq> Some ErrFileOverDir"
  "fst (Remove p w) \<noteq> Some ErrFileOverDir"
  "fst (Create p w) \<noteq> Some ErrFileOverDir"
  "fst (Copy p sf w) \<noteq> Some ErrFileOverDir"
  "fst (Chmod p m w) \<noteq> Some ErrFileOverDir"
  "fst (MkdirAll p perm w) \<noteq> Some ErrFileOverDir"
  "ReadDir p w \<noteq> Inl ErrFileOverDir"
  "fst (equal a b w) \<noteq> Inl ErrFileOverDir"
  using Stat_not_guard [of p w] Stat_not_guard [of a w] Stat_not_guard [of b w]
  by (auto simp: Remove_def Create_def Copy_def Chmod_def MkdirAll_def mkdirs_not_guard
      ReadDir_def equal_def Let_def Open_def
      split: sum.splits entry.splits option.splits if_splits prod.splits)

lemma syncperms_not_guard: "fst (syncperms dst src w) \<noteq> Some ErrFileOverDir"
  using Stat_not_guard [of dst w] Stat_not_guard [of src w] prims_not_guard(5) [of dst _ w]
  by (auto simp: syncperms_def Let_def split: sum.splits)

lemma sync_file_not_guard: "fst (sync_file d dst src w) \<noteq> Some ErrFileOverDir"
  unfolding sync_file_def
proof (rule and_then_not_guard)
  show "fst (case d of Some (Dir _) \<Rightarrow> RemoveAll dst w | _ \<Rightarrow> (None, w)) \<noteq> Some ErrFileOverDir"
    by (auto split: option.splits entry.splits)
next
  fix w1
  have "fst (and_then (Create dst w2)
      (\<lambda>w3. case Open src w3 of Inl e \<Rightarrow> (Some e, w3) | Inr sf \<Rightarrow> Copy dst sf w3)) \<noteq> Some ErrFileOverDir" for w2
    by (rule and_then_not_guard)
      (auto simp: prims_not_guard Open_def Stat_not_guard split: sum.splits)
  then show "fst (case equal dst src w1 of
         (Inl e, w2) \<Rightarrow> (Some e, w2)
       | (Inr True, w2) \<Rightarrow> (None, w2)
       | (Inr False, w2) \<Rightarrow>
           and_then (Create dst w2)
             (\<lambda>w3. case Open src w3 of Inl e \<Rightarrow> (Some e, w3) | Inr sf \<Rightarrow> Copy dst sf w3)) \<noteq> Some ErrFileOverDir"
    using prims_not_guard(8) [of dst src w1]
    by (auto split: prod.splits sum.splits bool.splits)
qed

lemma make_dir_not_guard: "fst (make_dir d dst w) \<noteq> Some ErrFileOverDir"
  by (auto simp: make_dir_def prims_not_guard split: option.splits entry.splits
      dest!: and_then_err)

lemma remove_extra_not_guard: "fst (remove_extra dst m ns w) \<noteq> Some ErrFileOverDir"
  by (induction ns arbitrary: w) (auto dest!: and_then_err)

lemma sync_each_not_guard:
  assumes "\<And>d s w w'. rec d s w \<noteq> Some (Some ErrFileOverDir, w')"
  shows "sync_each rec dst src ns w \<noteq> Some (Some ErrFileOverDir, w')"
  using assms
  by (induction ns arbitrary: w) (auto split: option.splits prod.splits)

lemma sync_dir_not_guard:
  assumes "\<And>d s w w'. rec d s w \<noteq> Some (Some ErrFileOverDir, w')"
  shows "sync_dir rec del d dst src w \<noteq> Some (Some ErrFileOverDir, w')"
proof
  assume a: "sync_dir rec del d dst src w = Some (Some ErrFileOverDir, w')"
  have 1: "make_dir d dst w \<noteq> (Some ErrFileOverDir, w1)" for w1
    using make_dir_not_guard [of d dst w] by auto
  have 2: "remove_extra dst m ns w2 \<noteq> (Some ErrFileOverDir, w3)" for m ns w2 w3
    using remove_extra_not_guard [of dst m ns w2] by auto
  from a show False
    using 1 2 sync_each_not_guard [OF assms] prims_not_guard(7)
    by (auto simp: sync_dir_def split: prod.splits option.splits sum.splits if_splits)
qed

lemma sync_body_not_guard:
  assumes "\<And>d s w w'. rec d s w \<noteq> Some (Some ErrFileOverDir, w')"
  shows "sync_body rec del dst src w \<noteq> Some (Some ErrFileOverDir, w')"
proof
  assume a: "sync_body rec del dst src w = Some (Some ErrFileOverDir, w')"
  have 1: "sync_file d dst src w \<noteq> (Some ErrFileOverDir, w1)" for d w1
    using sync_file_not_guard [of d dst src w] by auto
  have 2: "nil_if_missing r \<noteq> Inl ErrFileOverDir" if "r \<noteq> Inl ErrFileOverDir" for r
    using that by (cases r) auto
  from a show False
    using 1 2 [OF Stat_not_guard [of dst w]] Stat_not_guard [of src w] sync_dir_not_guard [OF assms]
    by (auto simp: sync_body_def split: sum.splits if_splits)
qed

lemma sync_not_guard: "sync k del dst src w \<noteq> Some (Some ErrFileOverDir, w')"
proof (induction k arbitrary: dst src w w')
  case 0
  then show ?case by simp
next
  case (Suc k)
  show ?case
  proof
    assume "sync (Suc k) del dst src w = Some (Some ErrFileOverDir, w')"
    then obtain r1 w1 where 1: "sync_body (sync k del) del dst src w = Some (r1, w1)"
      and 2: "deferred (syncperms dst src) (r1, w1) = (Some ErrFileOverDir, w')"
      by auto
    from 1 sync_body_not_guard [of "sync k del", OF Suc.IH] have "r1 \<noteq> Some ErrFileOverDir"
      by auto
    with deferred_cases [OF 2] syncperms_not_guard [of dst src w1] show False by auto
  qed
qed

lemma checkDir_True_iff:
  "checkDir dst src w = Inr True \<longleftrightarrow>
     (\<exists>d s ns. Stat dst w = Inr d \<and> IsDir d \<and> Stat src w = Inr s \<and> \<not> IsDir s \<and>
        ReadDir dst w = Inr ns \<and> ns \<noteq> [])"
  by (auto simp: checkDir_def split: sum.splits)

text \<open>
  C2. \<open>Sync\<close> and \<open>SyncDel\<close> return \<open>ErrFileOverDir\<close> exactly when dst stats
  as a directory, src stats as a regular file and the listing of dst is not empty; and
  the world they return with that error is the world they were given. (The recursive
  synchroniser never produces this error: \<open>sync_not_guard\<close>.)
\<close>

theorem guard_error_iff:
  "(Sync k dst src w = Some (Some ErrFileOverDir, w') \<longleftrightarrow>
      w' = w \<and> (\<exists>d s ns. Stat dst w = Inr d \<and> IsDir d \<and> Stat src w = Inr s \<and> \<not> IsDir s \<and>
        ReadDir dst w = Inr ns \<and> ns \<noteq> [])) \<and>
   (SyncDel k dst src w = Some (Some ErrFileOverDir, w') \<longleftrightarrow>
      w' = w \<and> (\<exists>d s ns. Stat dst w = Inr d \<and> IsDir d \<and> Stat src w = Inr s \<and> \<not> IsDir s \<and>
        ReadDir dst w = Inr ns \<and> ns \<noteq> []))"
proof -
  have "checkDir dst src w \<noteq> Inl ErrFileOverDir"
    using Stat_not_guard [of dst w] Stat_not_guard [of src w] prims_not_guard(7) [of dst w]
    by (auto simp: checkDir_def split: sum.splits if_splits)
  then show ?thesis
    unfolding checkDir_True_iff [symmetric]
    by (cases "checkDir dst src w")
      (auto simp: Sync_def SyncDel_def syncRecover_def sync_not_guard)
qed

theorem guard_error_iff_witness:
  "Sync 3 [''d''] [''f''] wG = Some (Some ErrFileOverDir, wG) \<and>
   SyncDel 3 [''d''] [''f''] wG = Some (Some ErrFileOverDir, wG) \<and>
   Sync 3 [''e''] [''f''] wG \<noteq> Some (Some ErrFileOverDir, wG) \<and>
   lookup wG [''d'', ''x''] = Some (File [7] 420)"
proof -
  have d: "Stat [''d''] wG = Inr (Dir 493)" "IsDir (Dir 493)" by code_simp+
  have f: "Stat [''f''] wG = Inr (File [88] 420)" "\<not> IsDir (File [88] 420)" by code_simp+
  have l: "ReadDir [''d''] wG = Inr [''x'']" "[''x''] \<noteq> []" by code_simp+
  have e: "ReadDir [''e''] wG = Inr []" by code_simp
  have x: "lookup wG [''d'', ''x''] = Some (File [7] 420)" by code_simp
  show ?thesis
    using guard_error_iff [of 3 "[''d'']" "[''f'']" wG wG] guard_error_iff [of 3 "[''e'']" "[''f'']" wG wG]
      d f l e x
    by auto
qed
section \<open>Permissions, and the synchronisation of a single file\<close>

lemma Perm_Perm [simp]: "Perm (Perm m) = Perm m"
  by (simp add: Perm_def and.assoc)

lemma mask_511: "(511 :: filemode) AND chmod_mask = 511"
  unfolding chmod_mask_def by code_simp

lemma Perm_chmod_mask [simp]: "Perm m AND chmod_mask = Perm m"
  unfolding Perm_def and.assoc mask_511 ..

lemma Stat_counters [simp]:
  "Stat p (w\<lparr>reads := n\<rparr>) = Stat p w" "Stat p (w\<lparr>copies := n\<rparr>) = Stat p w"
  by (rule Stat_cong, simp)+

lemma Stat_missing:
  "p \<noteq> [] \<Longrightarrow> (\<And>q. strict_prefix q p \<Longrightarrow> q \<noteq> [] \<Longrightarrow> \<exists>m. lookup w q = Some (Dir m)) \<Longrightarrow>
     lookup w p = None \<Longrightarrow> Stat p w = Inl ENOENT"
proof -
  assume a: "p \<noteq> []" "\<And>q. strict_prefix q p \<Longrightarrow> q \<noteq> [] \<Longrightarrow> \<exists>m. lookup w q = Some (Dir m)"
    "lookup w p = None"
  then have "walk w (parents p) = None" by (auto simp: walk_None_iff set_parents)
  with a show ?thesis by (simp add: Stat_def)
qed

lemma syncperms_missing:
  "IsNotExist (Stat dst w) \<or> IsNotExist (Stat src w) \<Longrightarrow> syncperms dst src w = (None, w)"
  by (simp add: syncperms_def)

lemma syncperms_both:
  assumes "Stat dst w = Inr d" and "Stat src w = Inr s"
  shows "syncperms dst src w =
    (None, if Perm (mode d) = Perm (mode s) then w else put dst (set_mode (Perm (mode s)) d) w)"
  using assms by (simp add: syncperms_def IsNotExist_def Chmod_def)

lemma mode_set_mode [simp]: "mode (set_mode m e) = m"
  by (cases e) simp_all

lemma IsDir_set_mode [simp]: "IsDir (set_mode m e) = IsDir e"
  by (cases e) simp_all


lemma equal_snd: "\<exists>n. snd (equal a b w) = w\<lparr>reads := n\<rparr>"
proof -
  have "\<exists>n. w = w\<lparr>reads := n\<rparr>" by (rule exI [of _ "reads w"]) simp
  then show ?thesis
    by (auto simp: equal_def Let_def split: sum.splits entry.splits prod.splits)
qed


lemma equal_lookup_eq:
  assumes "equal a b w = (r, w2)"
  shows "lookup w2 = lookup w" and "copies w2 = copies w" and "umask w2 = umask w"
    and "Stat p w2 = Stat p w" and "well_formed w2 = well_formed w"
proof -
  from equal_snd [of a b w] assms obtain n where "w2 = w\<lparr>reads := n\<rparr>" by auto
  then show "lookup w2 = lookup w" "copies w2 = copies w" "umask w2 = umask w"
    "Stat p w2 = Stat p w" "well_formed w2 = well_formed w"
    by simp_all
qed

text \<open>What \<open>sync\<close> does when src is a regular file and does not lie below dst.\<close>

lemma sync_src_file:
  assumes wf: "well_formed w"
    and src: "lookup w src = Some (File bs ms)"
    and np: "\<not> prefix dst src"
    and ne: "dst \<noteq> []"
    and par: "\<And>q. strict_prefix q dst \<Longrightarrow> q \<noteq> [] \<Longrightarrow> \<exists>m. lookup w q = Some (Dir m)"
  shows "\<exists>w' m'. sync (Suc k) del dst src w = Some (None, w') \<and>
           lookup w' = (\<lambda>q. if q = dst then Some (File bs m')
                            else if prefix dst q then None else lookup w q) \<and>
           Perm m' = Perm ms \<and>
           copies w' = copies w + (if \<exists>m. lookup w dst = Some (File bs m) then 0 else 1)"
proof -
  have sd: "src \<noteq> dst" using np by auto
  \<comment> \<open>line 106: the stat of dst\<close>
  have statd: "nil_if_missing (Stat dst w) = Inr (lookup w dst)"
  proof (cases "lookup w dst")
    case None
    with ne par have "Stat dst w = Inl ENOENT" by (intro Stat_missing) auto
    with None show ?thesis by simp
  next
    case (Some e)
    with wf have "Stat dst w = Inr e" by (rule wf_Stat)
    with Some show ?thesis by simp
  qed
  have stats: "Stat src w = Inr (File bs ms)" using wf src by (rule wf_Stat)
  \<comment> \<open>lines 116-118: a directory at dst is removed\<close>
  define w1 where "w1 = (case lookup w dst of Some (Dir _) \<Rightarrow> snd (RemoveAll dst w) | _ \<Rightarrow> w)"
  have step1: "(case lookup w dst of Some (Dir _) \<Rightarrow> RemoveAll dst w | _ \<Rightarrow> (None, w)) = (None, w1)"
    by (auto simp: w1_def RemoveAll_def split: option.splits entry.splits)
  have wf1: "well_formed w1"
    using wf by (auto simp: w1_def wf_RemoveAll split: option.splits entry.splits)
  have c1: "copies w1 = copies w"
    by (auto simp: w1_def split: option.splits entry.splits)
  have l1: "lookup w1 q = (if (\<exists>m. lookup w dst = Some (Dir m)) \<and> prefix dst q then None else lookup w q)" for q
    using ne by (auto simp: w1_def lookup_RemoveAll split: option.splits entry.splits)
  have l1src: "lookup w1 src = Some (File bs ms)" using l1 [of src] np src by simp
  have par1: "\<exists>m. lookup w1 q = Some (Dir m)" if "strict_prefix q dst" "q \<noteq> []" for q
    using par [OF that] l1 [of q] that(1) by (auto simp: strict_prefix_def)
  have below1: "lookup w1 q = None" if "strict_prefix dst q" for q
  proof (cases "lookup w dst")
    case None
    with wf ne that have "lookup w q = None" by (auto intro: wf_missing_below simp: strict_prefix_def)
    with l1 [of q] show ?thesis by simp
  next
    case (Some e)
    show ?thesis
    proof (cases e)
      case (File b m)
      with Some wf that have "lookup w q = None" by (auto intro: wf_file_leaf)
      with l1 [of q] show ?thesis by simp
    next
      case (Dir m)
      with Some l1 [of q] that show ?thesis by (simp add: strict_prefix_def)
    qed
  qed
  have d1: "lookup w1 dst = None \<or> (\<exists>b m. lookup w dst = Some (File b m) \<and> lookup w1 dst = Some (File b m))"
    using l1 [of dst] by (cases "lookup w dst") (auto split: entry.splits, case_tac a, auto)
  have stats1: "Stat src w1 = Inr (File bs ms)" using wf1 l1src by (rule wf_Stat)
  \<comment> \<open>line 119: the comparison\<close>
  obtain r w2 where eq: "equal dst src w1 = (r, w2)" by (cases "equal dst src w1")
  note e2 = equal_lookup_eq [OF eq]
  have wf2: "well_formed w2" using e2(5) wf1 by simp
  show ?thesis
  proof (cases "\<exists>m. lookup w dst = Some (File bs m)")
    case True
    then obtain md where md: "lookup w dst = Some (File bs md)" by auto
    with l1 [of dst] have "lookup w1 dst = Some (File bs md)" by simp
    with wf1 have statd1: "Stat dst w1 = Inr (File bs md)" by (rule wf_Stat)
    from equal_files [OF statd1 stats1] eq have r: "r = Inr True" by (auto split: if_splits)
    have body: "sync_file (lookup w dst) dst src w = (None, w2)"
      unfolding sync_file_def step1 using eq r by (simp add: and_then_def)
    have "Stat dst w2 = Inr (File bs md)" "Stat src w2 = Inr (File bs ms)"
      using e2(4) statd1 stats1 by simp_all
    note sp = syncperms_both [OF this]
    let ?w' = "if Perm md = Perm ms then w2 else put dst (File bs (Perm ms)) w2"
    have run: "sync (Suc k) del dst src w = Some (None, ?w')"
      using statd stats body sp by (simp add: sync_body_def deferred_def)
    let ?m' = "if Perm md = Perm ms then md else Perm ms"
    have "lookup ?w' = (\<lambda>q. if q = dst then Some (File bs ?m')
                            else if prefix dst q then None else lookup w q)"
    proof (rule ext)
      fix q show "lookup ?w' q = (if q = dst then Some (File bs ?m')
                            else if prefix dst q then None else lookup w q)"
        using e2(1) l1 [of q] md below1 [of q] \<open>lookup w1 dst = Some (File bs md)\<close>
        by (auto simp: strict_prefix_def)
    qed
    moreover have "Perm ?m' = Perm ms" by simp
    moreover have "copies ?w' = copies w + (if \<exists>m. lookup w dst = Some (File bs m) then 0 else 1)"
      using True e2(2) c1 by simp
    ultimately show ?thesis using run by blast
  next
    case False
    have r: "r = Inr False"
    proof (cases "lookup w1 dst")
      case None
      with ne par1 have "Stat dst w1 = Inl ENOENT" by (intro Stat_missing) auto
      then have "IsNotExist (Stat dst w1)" by (simp add: IsNotExist_def)
      with equal_missing [of dst w1 src] eq show ?thesis by simp
    next
      case (Some e)
      with d1 obtain b m where bm: "lookup w dst = Some (File b m)" "lookup w1 dst = Some (File b m)"
        by auto
      with False have "b \<noteq> bs" by auto
      moreover have "Stat dst w1 = Inr (File b m)" using wf1 bm(2) by (rule wf_Stat)
      ultimately show ?thesis using equal_files [OF _ stats1, of dst b m] eq
        by (auto split: if_splits)
    qed
    \<comment> \<open>line 121: the file is created or truncated\<close>
    define m0 where "m0 = (case lookup w1 dst of Some (File _ m) \<Rightarrow> m | _ \<Rightarrow> 438 AND NOT (umask w2))"
    have d2: "lookup w2 dst = lookup w1 dst" using e2(1) by simp
    have create: "Create dst w2 = (None, put dst (File [] m0) w2)"
    proof (cases "lookup w1 dst")
      case None
      with ne par1 have "Stat dst w1 = Inl ENOENT" by (intro Stat_missing) auto
      moreover have "walk w2 (parents dst) = None"
        using par1 e2(1) by (auto simp: walk_None_iff set_parents)
      ultimately show ?thesis using None ne e2(4) [of dst]
        by (simp add: Create_def m0_def)
    next
      case (Some e)
      with d1 obtain b m where bm: "lookup w1 dst = Some (File b m)" by auto
      with wf1 have "Stat dst w1 = Inr (File b m)" by (rule wf_Stat)
      with bm e2(4) [of dst] show ?thesis by (simp add: Create_def m0_def)
    qed
    let ?w3 = "put dst (File [] m0) w2"
    have wf3: "well_formed ?w3"
      using wf_Create [OF wf2, of dst] create by simp
    have "lookup ?w3 src = Some (File bs ms)" using l1src e2(1) sd by simp
    with wf3 have open3: "Open src ?w3 = Inr (File bs ms)" by (simp add: Open_def wf_Stat)
    \<comment> \<open>line 127: the copy\<close>
    let ?w4 = "put dst (File bs m0) (?w3\<lparr>copies := copies ?w3 + 1\<rparr>)"
    have copy: "Copy dst (File bs ms) ?w3 = (None, ?w4)" by (simp add: Copy_def)
    have body: "sync_file (lookup w dst) dst src w = (None, ?w4)"
      unfolding sync_file_def step1 using eq r create open3 copy by (simp add: and_then_def)
    have wf4: "well_formed ?w4" using wf_Copy [OF wf3, of dst "File bs ms"] copy by simp
    have l4: "lookup ?w4 = (lookup w1)(dst \<mapsto> File bs m0)"
      using e2(1) by (auto simp: fun_eq_iff)
    have "Stat dst ?w4 = Inr (File bs m0)" using wf4 l4 by (intro wf_Stat) simp_all
    moreover have "Stat src ?w4 = Inr (File bs ms)" using wf4 l4 l1src sd by (intro wf_Stat) simp_all
    ultimately have sp: "syncperms dst src ?w4 =
        (None, if Perm m0 = Perm ms then ?w4 else put dst (File bs (Perm ms)) ?w4)"
      using syncperms_both [of dst ?w4 "File bs m0" src "File bs ms"] by simp
    let ?w' = "if Perm m0 = Perm ms then ?w4 else put dst (File bs (Perm ms)) ?w4"
    have run: "sync (Suc k) del dst src w = Some (None, ?w')"
      using statd stats body sp by (simp add: sync_body_def deferred_def)
    let ?m' = "if Perm m0 = Perm ms then m0 else Perm ms"
    have "lookup ?w' = (\<lambda>q. if q = dst then Some (File bs ?m')
                            else if prefix dst q then None else lookup w q)"
    proof (rule ext)
      fix q show "lookup ?w' q = (if q = dst then Some (File bs ?m')
                            else if prefix dst q then None else lookup w q)"
        using l4 l1 [of q] below1 [of q]
        by (auto simp: strict_prefix_def)
    qed
    moreover have "Perm ?m' = Perm ms" by simp
    moreover have "copies ?w' = copies w + (if \<exists>m. lookup w dst = Some (File bs m) then 0 else 1)"
      using False e2(2) c1 by simp
    ultimately show ?thesis using run by blast
  qed
qed
section \<open>Claims about permissions and single files\<close>

text \<open>
  C5. On a well-formed file system:
  \<^item> if the stat of either path reports that it does not exist, \<open>syncperms\<close> returns
    without error and without change;
  \<^item> if both paths stat, it returns without error; it leaves the world alone when the
    permission bits agree, and otherwise rewrites the mode of dst only, to the
    permission bits of src, keeping dst a file or a directory as it was;
  \<^item> every return of \<open>sync\<close>, by result or by panic, is the world that the body left,
    passed through \<open>syncperms\<close>;
  \<^item> for two regular files with the same bytes and different permission bits,
    \<open>Sync\<close> succeeds, changes nothing but the mode of dst, which becomes the
    permission bits of src, and makes no copy.
\<close>

theorem syncperms_spec:
  assumes "well_formed w"
  shows
   "(IsNotExist (Stat dst w) \<or> IsNotExist (Stat src w) \<longrightarrow> syncperms dst src w = (None, w)) \<and>
    (Stat dst w = Inr d \<and> Stat src w = Inr s \<longrightarrow>
       syncperms dst src w =
         (None, if Perm (mode d) = Perm (mode s) then w
                else put dst (set_mode (Perm (mode s)) d) w) \<and>
       Perm (mode (set_mode (Perm (mode s)) d)) = Perm (mode s) \<and>
       IsDir (set_mode (Perm (mode s)) d) = IsDir d) \<and>
    (sync (Suc k) del dst src w = Some (r, w') \<longrightarrow>
       (\<exists>r1 w1. sync_body (sync k del) del dst src w = Some (r1, w1) \<and>
          w' = snd (syncperms dst src w1))) \<and>
    (Stat dst w = Inr (File bs md) \<and> Stat src w = Inr (File bs ms) \<and> Perm md \<noteq> Perm ms \<longrightarrow>
       (\<exists>w2. Sync (Suc k) dst src w = Some (None, w2) \<and>
          lookup w2 = (lookup w)(dst \<mapsto> File bs (Perm ms)) \<and> copies w2 = copies w))"
proof (intro conjI impI)
  assume "IsNotExist (Stat dst w) \<or> IsNotExist (Stat src w)"
  then show "syncperms dst src w = (None, w)" by (rule syncperms_missing)
next
  assume "Stat dst w = Inr d \<and> Stat src w = Inr s"
  then show "syncperms dst src w =
         (None, if Perm (mode d) = Perm (mode s) then w
                else put dst (set_mode (Perm (mode s)) d) w)"
    by (simp add: syncperms_both)
next
  show "Perm (mode (set_mode (Perm (mode s)) d)) = Perm (mode s)" by simp
  show "IsDir (set_mode (Perm (mode s)) d) = IsDir d" by simp
next
  assume "sync (Suc k) del dst src w = Some (r, w')"
  then obtain r1 w1 where 1: "sync_body (sync k del) del dst src w = Some (r1, w1)"
    and 2: "deferred (syncperms dst src) (r1, w1) = (r, w')"
    by auto
  with deferred_cases [OF 2]
  show "\<exists>r1 w1. sync_body (sync k del) del dst src w = Some (r1, w1) \<and>
          w' = snd (syncperms dst src w1)" by blast
next
  assume a: "Stat dst w = Inr (File bs md) \<and> Stat src w = Inr (File bs ms) \<and> Perm md \<noteq> Perm ms"
  then have ld: "lookup w dst = Some (File bs md)" and ls: "lookup w src = Some (File bs ms)"
    by (auto dest: Stat_lookup)
  have ne: "dst \<noteq> []" using assms ld by (rule wf_nonempty)
  have "dst \<noteq> src" using a by auto
  moreover have "\<not> strict_prefix dst src"
    using wf_file_leaf [OF assms ld, of src] ls by auto
  ultimately have np: "\<not> prefix dst src" by (auto simp: strict_prefix_def)
  have par: "\<And>q. strict_prefix q dst \<Longrightarrow> q \<noteq> [] \<Longrightarrow> \<exists>m. lookup w q = Some (Dir m)"
    using assms ld by (rule wf_parent)
  from sync_src_file [OF assms ls np ne par, of k False]
  obtain w2 m' where run: "sync (Suc k) False dst src w = Some (None, w2)"
    and l2: "lookup w2 = (\<lambda>q. if q = dst then Some (File bs m')
                            else if prefix dst q then None else lookup w q)"
    and pm: "Perm m' = Perm ms" and c2: "copies w2 = copies w"
    using ld by auto
  have guard: "checkDir dst src w = Inr False" using a by (simp add: checkDir_def)
  have l2': "lookup w2 q = ((lookup w)(dst \<mapsto> File bs m')) q" for q
    using l2 wf_file_leaf [OF assms ld, of q] by (auto simp: strict_prefix_def)
  \<comment> \<open>the mode written is that of the source, since the two differed\<close>
  from a have "Stat dst w = Inr (File bs md)" by simp
  have "m' = Perm ms"
  proof -
    obtain rb wb where body: "sync_body (sync k False) False dst src w = Some (rb, wb)"
      and d: "deferred (syncperms dst src) (rb, wb) = (None, w2)"
      using run by auto
    have eqr: "equal dst src w = (Inr True, wb) \<and> rb = None"
      using body a equal_files [of dst w bs md src bs ms]
      by (auto simp: sync_body_def sync_file_def and_then_def read_loop_fst
          split: prod.splits sum.splits bool.splits)
    note e = equal_lookup_eq [OF eqr [THEN conjunct1]]
    have "syncperms dst src wb = (None, put dst (File bs (Perm ms)) wb)"
      using a e(4) syncperms_both [of dst wb "File bs md" src "File bs ms"] by simp
    with d have "w2 = put dst (File bs (Perm ms)) wb" by (simp add: deferred_def)
    then have "lookup w2 dst = Some (File bs (Perm ms))" by simp
    with l2 show ?thesis by simp
  qed
  with l2' have "lookup w2 = (lookup w)(dst \<mapsto> File bs (Perm ms))" by auto
  with run guard c2
  show "\<exists>w2. Sync (Suc k) dst src w = Some (None, w2) \<and>
          lookup w2 = (lookup w)(dst \<mapsto> File bs (Perm ms)) \<and> copies w2 = copies w"
    by (auto simp: Sync_def syncRecover_def)
qed


theorem syncperms_spec_witness:
  "syncperms [''n''] [''s''] wP = (None, wP) \<and>
   syncperms [''d''] [''s''] wP = (None, put [''d''] (File [5, 6] 420) wP) \<and>
   syncperms [''s''] [''s''] wP = (None, wP) \<and>
   (\<exists>r1 w1. sync_body (sync 0 False) False [''d''] [''s''] wP = Some (r1, w1) \<and>
      snd (the (sync (Suc 0) False [''d''] [''s''] wP)) = snd (syncperms [''d''] [''s''] w1)) \<and>
   (\<exists>w2. Sync (Suc 0) [''d''] [''s''] wP = Some (None, w2) \<and>
      lookup w2 = (lookup wP)([''d''] \<mapsto> File [5, 6] 420) \<and> copies w2 = copies wP)"
proof -
  have wf: "well_formed wP" by code_simp
  have n: "IsNotExist (Stat [''n''] wP)" by code_simp
  have d: "Stat [''d''] wP = Inr (File [5, 6] 384)" by code_simp
  have s: "Stat [''s''] wP = Inr (File [5, 6] 420)" by code_simp
  have p: "Perm 384 \<noteq> Perm 420" by code_simp
  have p': "Perm 420 = 420" by code_simp
  have run: "sync (Suc 0) False [''d''] [''s''] wP =
      Some (fst (the (sync (Suc 0) False [''d''] [''s''] wP)),
            snd (the (sync (Suc 0) False [''d''] [''s''] wP)))"
    by code_simp
  note t = syncperms_spec [OF wf]
  have 1: "syncperms [''n''] [''s''] wP = (None, wP)"
    using t [THEN conjunct1, of "[''n'']" "[''s'']"] n by blast
  have 2: "syncperms [''d''] [''s''] wP = (None, put [''d''] (File [5, 6] 420) wP)"
    using t [THEN conjunct2, THEN conjunct1, of "[''d'']" "File [5, 6] 384" "[''s'']" "File [5, 6] 420"]
      d s p p' by simp
  have 3: "syncperms [''s''] [''s''] wP = (None, wP)"
    using t [THEN conjunct2, THEN conjunct1, of "[''s'']" "File [5, 6] 420" "[''s'']" "File [5, 6] 420"]
      s by simp
  have 4: "\<exists>r1 w1. sync_body (sync 0 False) False [''d''] [''s''] wP = Some (r1, w1) \<and>
      snd (the (sync (Suc 0) False [''d''] [''s''] wP)) = snd (syncperms [''d''] [''s''] w1)"
    using t [THEN conjunct2, THEN conjunct2, THEN conjunct1, THEN mp, OF run] .
  have 5: "\<exists>w2. Sync (Suc 0) [''d''] [''s''] wP = Some (None, w2) \<and>
      lookup w2 = (lookup wP)([''d''] \<mapsto> File [5, 6] 420) \<and> copies w2 = copies wP"
    using t [THEN conjunct2, THEN conjunct2, THEN conjunct2, of "[''d'']" "[5, 6]" 384 "[''s'']" 420 0]
      d s p p' by simp
  from 1 2 3 4 5 show ?thesis by blast
qed

text \<open>
  C4, as stated, for the pair \<open>(a/b, a/b/b)\<close> that \<open>Sync a a/b\<close> reaches below the top
  level: the source \<open>a/b/b\<close> is a file and the destination \<open>a/b\<close> a non-empty
  directory. The directory is removed, and the source with it; the call panics, and
  what is left at \<open>a/b\<close> is an empty file, not the source's bytes.
\<close>

theorem nested_file_over_dir_counterexample:
  "lookup wA [''a'', ''b''] = Some (Dir 493) \<and>
   lookup wA [''a'', ''b'', ''b''] = Some (File [1] 420) \<and>
   fst (the (sync 1 False [''a'', ''b''] [''a'', ''b'', ''b''] wA)) = Some ENOTDIR \<and>
   lookup (snd (the (sync 1 False [''a'', ''b''] [''a'', ''b'', ''b''] wA))) [''a'', ''b'']
     = Some (File [] 420) \<and>
   fst (the (Sync 3 [''a''] [''a'', ''b''] wA)) = Some ENOTDIR \<and>
   lookup (snd (the (Sync 3 [''a''] [''a'', ''b''] wA))) [''a'', ''b''] = Some (File [] 420)"
  by code_simp

text \<open>
  C4, amended. On a well-formed file system, when src is a regular file that does not
  lie below dst and dst is a directory, empty or not, \<open>sync\<close> (which has no guard)
  returns without error after one copy; dst is then a regular file with the bytes and
  the permission bits of src, nothing is left below dst, and every path outside dst is
  as it was.
\<close>

theorem nested_file_over_dir:
  assumes "well_formed w"
    and "lookup w src = Some (File bs ms)"
    and "lookup w dst = Some (Dir md)"
    and "\<not> prefix dst src"
  shows "\<exists>w' m'. sync (Suc k) del dst src w = Some (None, w') \<and>
           lookup w' dst = Some (File bs m') \<and> Perm m' = Perm ms \<and>
           (\<forall>q. strict_prefix dst q \<longrightarrow> lookup w' q = None) \<and>
           (\<forall>q. \<not> prefix dst q \<longrightarrow> lookup w' q = lookup w q) \<and>
           copies w' = copies w + 1"
proof -
  have ne: "dst \<noteq> []" using assms(1,3) by (rule wf_nonempty)
  have par: "\<And>q. strict_prefix q dst \<Longrightarrow> q \<noteq> [] \<Longrightarrow> \<exists>m. lookup w q = Some (Dir m)"
    using assms(1,3) by (rule wf_parent)
  from sync_src_file [OF assms(1,2,4) ne par, of k del] assms(3)
  obtain w' m' where run: "sync (Suc k) del dst src w = Some (None, w')"
    and l: "lookup w' = (\<lambda>q. if q = dst then Some (File bs m')
                            else if prefix dst q then None else lookup w q)"
    and pm: "Perm m' = Perm ms" and c: "copies w' = copies w + 1"
    by auto
  from l have "lookup w' dst = Some (File bs m')"
    and "\<forall>q. strict_prefix dst q \<longrightarrow> lookup w' q = None"
    and "\<forall>q. \<not> prefix dst q \<longrightarrow> lookup w' q = lookup w q"
    by (auto simp: strict_prefix_def)
  with run pm c show ?thesis by blast
qed

theorem nested_file_over_dir_witness:
  "(\<exists>w' m'. sync (Suc 0) True [''t'', ''f''] [''s'', ''f''] wN = Some (None, w') \<and>
      lookup w' [''t'', ''f''] = Some (File [88] m') \<and> Perm m' = Perm 420 \<and>
      lookup w' [''t'', ''f'', ''x''] = None \<and>
      lookup w' [''s'', ''f''] = Some (File [88] 420) \<and>
      copies w' = copies wN + 1) \<and>
   lookup (snd (the (Sync 2 [''t''] [''s''] wN))) [''t'', ''f''] = Some (File [88] 420) \<and>
   lookup (snd (the (Sync 2 [''t''] [''s''] wN))) [''t'', ''f'', ''x''] = None"
proof -
  have wf: "well_formed wN" by code_simp
  have s: "lookup wN [''s'', ''f''] = Some (File [88] 420)" by code_simp
  have d: "lookup wN [''t'', ''f''] = Some (Dir 448)" by code_simp
  have np: "\<not> prefix [''t'', ''f''] [''s'', ''f'']" by simp
  have sp: "strict_prefix [''t'', ''f''] [''t'', ''f'', ''x'']" by (simp add: strict_prefix_def)
  have np': "\<not> prefix [''t'', ''f''] [''s'', ''f'']" by simp
  have top: "lookup (snd (the (Sync 2 [''t''] [''s''] wN))) [''t'', ''f''] = Some (File [88] 420)"
    "lookup (snd (the (Sync 2 [''t''] [''s''] wN))) [''t'', ''f'', ''x''] = None"
    by code_simp+
  from nested_file_over_dir [OF wf s d np, of 0 True]
  obtain w' m' where "sync (Suc 0) True [''t'', ''f''] [''s'', ''f''] wN = Some (None, w')"
    "lookup w' [''t'', ''f''] = Some (File [88] m')" "Perm m' = Perm 420"
    "\<forall>q. strict_prefix [''t'', ''f''] q \<longrightarrow> lookup w' q = None"
    "\<forall>q. \<not> prefix [''t'', ''f''] q \<longrightarrow> lookup w' q = lookup wN q"
    "copies w' = copies wN + 1"
    by blast
  with sp np' s top show ?thesis by auto
qed

text \<open>
  C10. When the stat of either path reports that it does not exist (ENOENT),
  \<open>equal\<close> returns false, with no error and no change. The synchroniser uses this: on a
  well-formed file system, for a regular file src, when dst does not exist in an
  existing directory, or when dst is a directory (which line 117 removes first) and
  src does not lie below it, \<open>sync\<close> returns without error after exactly one copy, and
  dst holds the bytes of src.
\<close>

theorem equal_missing_is_false:
  "(IsNotExist (Stat a w) \<or> IsNotExist (Stat b w) \<longrightarrow> equal a b w = (Inr False, w)) \<and>
   (well_formed w \<and> lookup w src = Some (File bs ms) \<and> \<not> prefix dst src \<and>
    ((IsNotExist (Stat dst w) \<and> dst \<noteq> [] \<and> walk w (parents dst) = None) \<or>
     (\<exists>md. lookup w dst = Some (Dir md))) \<longrightarrow>
      (\<exists>w' m'. sync (Suc k) del dst src w = Some (None, w') \<and>
         IsNotExist (Stat dst (snd (case lookup w dst of
            Some (Dir _) \<Rightarrow> RemoveAll dst w | _ \<Rightarrow> (None, w)))) \<and>
         lookup w' dst = Some (File bs m') \<and> copies w' = copies w + 1))"
proof (intro conjI impI)
  assume "IsNotExist (Stat a w) \<or> IsNotExist (Stat b w)"
  then show "equal a b w = (Inr False, w)" by (rule equal_missing)
next
  assume a: "well_formed w \<and> lookup w src = Some (File bs ms) \<and> \<not> prefix dst src \<and>
    ((IsNotExist (Stat dst w) \<and> dst \<noteq> [] \<and> walk w (parents dst) = None) \<or>
     (\<exists>md. lookup w dst = Some (Dir md)))"
  then have wf: "well_formed w" and src: "lookup w src = Some (File bs ms)"
    and np: "\<not> prefix dst src" by auto
  have ne: "dst \<noteq> []" using a wf by (auto dest: wf_nonempty)
  have par: "\<exists>m. lookup w q = Some (Dir m)" if "strict_prefix q dst" "q \<noteq> []" for q
    using a that wf by (auto simp: walk_None_iff set_parents dest: wf_parent)
  have nofile: "\<not> (\<exists>m. lookup w dst = Some (File bs m))"
  proof
    assume "\<exists>m. lookup w dst = Some (File bs m)"
    then obtain m where m: "lookup w dst = Some (File bs m)" ..
    with wf have "Stat dst w = Inr (File bs m)" by (rule wf_Stat)
    with a m show False by (auto simp: IsNotExist_def)
  qed
  let ?w1 = "snd (case lookup w dst of Some (Dir _) \<Rightarrow> RemoveAll dst w | _ \<Rightarrow> (None, w))"
  have gone: "IsNotExist (Stat dst ?w1)"
  proof (cases "\<exists>md. lookup w dst = Some (Dir md)")
    case True
    then have w1: "?w1 = snd (RemoveAll dst w)" by auto
    have "Stat dst (snd (RemoveAll dst w)) = Inl ENOENT"
    proof (rule Stat_missing [OF ne])
      show "lookup (snd (RemoveAll dst w)) dst = None" using ne by (simp add: lookup_RemoveAll)
      fix q assume "strict_prefix q dst" "q \<noteq> []"
      with par [OF this] show "\<exists>m. lookup (snd (RemoveAll dst w)) q = Some (Dir m)"
        by (auto simp: lookup_RemoveAll strict_prefix_def)
    qed
    with w1 show ?thesis by (simp add: IsNotExist_def)
  next
    case False
    with a have "IsNotExist (Stat dst w)" by auto
    moreover from this have "lookup w dst = None"
      using wf by (cases "lookup w dst") (auto simp: IsNotExist_def wf_Stat)
    ultimately show ?thesis by simp
  qed
  from sync_src_file [OF wf src np ne par, of k del] nofile
  obtain w' m' where "sync (Suc k) del dst src w = Some (None, w')"
    "lookup w' = (\<lambda>q. if q = dst then Some (File bs m')
                            else if prefix dst q then None else lookup w q)"
    "copies w' = copies w + 1"
    by auto
  with gone show "\<exists>w' m'. sync (Suc k) del dst src w = Some (None, w') \<and>
         IsNotExist (Stat dst ?w1) \<and>
         lookup w' dst = Some (File bs m') \<and> copies w' = copies w + 1"
    by auto
qed

theorem equal_missing_is_false_witness:
  "equal [''n''] [''s''] wP = (Inr False, wP) \<and> equal [''s''] [''n''] wP = (Inr False, wP) \<and>
   (\<exists>w' m'. sync (Suc 0) False [''n''] [''s''] wP = Some (None, w') \<and>
      lookup w' [''n''] = Some (File [5, 6] m') \<and> copies w' = copies wP + 1) \<and>
   (\<exists>w' m'. sync (Suc 0) False [''t'', ''f''] [''s'', ''f''] wN = Some (None, w') \<and>
      lookup w' [''t'', ''f''] = Some (File [88] m') \<and> copies w' = copies wN + 1)"
proof -
  have n: "IsNotExist (Stat [''n''] wP)" by code_simp
  have h1: "well_formed wP \<and> lookup wP [''s''] = Some (File [5, 6] 420) \<and> \<not> prefix [''n''] [''s''] \<and>
    ((IsNotExist (Stat [''n''] wP) \<and> [''n''] \<noteq> [] \<and> walk wP (parents [''n'']) = None) \<or>
     (\<exists>md. lookup wP [''n''] = Some (Dir md)))"
    by code_simp
  have d: "lookup wN [''t'', ''f''] = Some (Dir 448)" by code_simp
  have "well_formed wN \<and> lookup wN [''s'', ''f''] = Some (File [88] 420) \<and>
      \<not> prefix [''t'', ''f''] [''s'', ''f'']"
    by code_simp
  with d have h2: "well_formed wN \<and> lookup wN [''s'', ''f''] = Some (File [88] 420) \<and>
      \<not> prefix [''t'', ''f''] [''s'', ''f''] \<and>
    ((IsNotExist (Stat [''t'', ''f''] wN) \<and> [''t'', ''f''] \<noteq> [] \<and> walk wN (parents [''t'', ''f'']) = None) \<or>
     (\<exists>md. lookup wN [''t'', ''f''] = Some (Dir md)))"
    by blast
  note t = equal_missing_is_false
  have 1: "equal [''n''] [''s''] wP = (Inr False, wP)"
    using t [THEN conjunct1, of "[''n'']" wP "[''s'']"] n by blast
  have 2: "equal [''s''] [''n''] wP = (Inr False, wP)"
    using t [THEN conjunct1, of "[''s'']" wP "[''n'']"] n by blast
  have 3: "\<exists>w' m'. sync (Suc 0) False [''n''] [''s''] wP = Some (None, w') \<and>
      lookup w' [''n''] = Some (File [5, 6] m') \<and> copies w' = copies wP + 1"
    using t [THEN conjunct2, THEN mp, OF h1, of 0 False] by blast
  have 4: "\<exists>w' m'. sync (Suc 0) False [''t'', ''f''] [''s'', ''f''] wN = Some (None, w') \<and>
      lookup w' [''t'', ''f''] = Some (File [88] m') \<and> copies w' = copies wN + 1"
    using t [THEN conjunct2, THEN mp, OF h2, of 0 False] by blast
  from 1 2 3 4 show ?thesis by blast
qed
section \<open>The loops of sync\<close>

lemma uo_exact:
  assumes "well_formed w" and "well_formed w'" and "unchanged_outside p w w'"
    and "\<And>q. strict_prefix q p \<Longrightarrow> q \<noteq> [] \<Longrightarrow> lookup w q \<noteq> None"
    and "\<not> prefix p q"
  shows "lookup w' q = lookup w q"
proof (cases "lookup w' q = lookup w q")
  case True
  then show ?thesis .
next
  case False
  with assms(3,5) have n: "lookup w q = None" and sp: "strict_prefix q p"
    by (auto simp: unchanged_outside_def)
  have "q = []"
  proof (rule ccontr)
    assume "q \<noteq> []"
    from assms(4) [OF sp this] n show False by simp
  qed
  moreover have "lookup w' [] = None"
    using assms(2) by (cases "lookup w' []") (auto dest: wf_nonempty)
  ultimately show ?thesis using n by simp
qed

lemma uo_exact_child:
  assumes "well_formed w" and "well_formed w'" and "unchanged_outside (p @ [n]) w w'"
    and "lookup w p \<noteq> None" and "\<not> prefix (p @ [n]) q"
  shows "lookup w' q = lookup w q"
proof (rule uo_exact [OF assms(1,2,3) _ assms(5)])
  fix q assume q: "strict_prefix q (p @ [n])" "q \<noteq> []"
  from assms(4) obtain e where e: "lookup w p = Some e" by auto
  show "lookup w q \<noteq> None"
  proof (cases "q = p")
    case True
    with e show ?thesis by simp
  next
    case False
    with q(1) have "strict_prefix q p" by (auto simp: strict_prefix_def)
    from wf_parent [OF assms(1) e this q(2)] show ?thesis by auto
  qed
qed

lemma remove_extra_ok [simp]: "fst (remove_extra dst m ns w) = None"
  by (induction ns arbitrary: w) (auto simp: and_then_def RemoveAll_def)

lemma lookup_remove_extra:
  "lookup (snd (remove_extra dst m ns w)) q =
     (if \<exists>n \<in> set ns - set m. prefix (dst @ [n]) q then None else lookup w q)"
proof (induction ns arbitrary: w)
  case Nil
  then show ?case by simp
next
  case (Cons n ns)
  show ?case
  proof (cases "n \<in> set m")
    case True
    with Cons show ?thesis by auto
  next
    case False
    obtain w1 where r: "RemoveAll (dst @ [n]) w = (None, w1)"
      by (cases "RemoveAll (dst @ [n]) w") (auto simp: RemoveAll_def)
    then have l1: "lookup w1 q = (if prefix (dst @ [n]) q then None else lookup w q)" for q
      using lookup_RemoveAll [of "dst @ [n]" w q] by simp
    from False r have "remove_extra dst m (n # ns) w = remove_extra dst m ns w1"
      by (simp add: and_then_def)
    with Cons.IH [of w1] l1 False show ?thesis by auto
  qed
qed

lemma remove_extra_copies [simp]: "copies (snd (remove_extra dst m ns w)) = copies w"
proof (induction ns arbitrary: w)
  case Nil
  then show ?case by simp
next
  case (Cons n ns)
  then show ?case by (auto simp: and_then_def RemoveAll_def)
qed

text \<open>The loop over the names of src, for any recursive call that keeps the file
  system well formed and leaves alone what lies outside its destination.\<close>

lemma sync_each_outside:
  assumes rec_uo: "\<And>d s w r w'. rec d s w = Some (r, w') \<Longrightarrow> unchanged_outside d w w'"
    and rec_wf: "\<And>d s w r w'. well_formed w \<Longrightarrow> rec d s w = Some (r, w') \<Longrightarrow> well_formed w'"
    and "well_formed w" and "lookup w dst \<noteq> None"
    and "sync_each rec dst src ns w = Some (r, w')"
    and "\<And>n. n \<in> set ns \<Longrightarrow> \<not> prefix (dst @ [n]) q"
  shows "lookup w' q = lookup w q"
  using assms(3-)
proof (induction ns arbitrary: w)
  case Nil
  then show ?case by simp
next
  case (Cons n ns)
  from Cons.prems(3) obtain r1 w1 where 1: "rec (dst @ [n]) (src @ [n]) w = Some (r1, w1)"
    by (auto split: option.splits)
  have wf1: "well_formed w1" using Cons.prems(1) 1 by (rule rec_wf)
  have same: "lookup w1 q' = lookup w q'" if "\<not> prefix (dst @ [n]) q'" for q'
    using Cons.prems(1) wf1 rec_uo [OF 1] Cons.prems(2) that by (rule uo_exact_child)
  have q1: "lookup w1 q = lookup w q" using Cons.prems(4) by (intro same) simp
  show ?case
  proof (cases r1)
    case (Some e)
    with 1 Cons.prems(3) q1 show ?thesis by simp
  next
    case None
    with 1 Cons.prems(3) have rest: "sync_each rec dst src ns w1 = Some (r, w')" by simp
    have "lookup w1 dst \<noteq> None" using same [of dst] Cons.prems(2) by simp
    from Cons.IH [OF wf1 this rest] Cons.prems(4) q1 show ?thesis by simp
  qed
qed

lemma sync_each_exists:
  assumes rec_uo: "\<And>d s w r w'. rec d s w = Some (r, w') \<Longrightarrow> unchanged_outside d w w'"
    and rec_wf: "\<And>d s w r w'. well_formed w \<Longrightarrow> rec d s w = Some (r, w') \<Longrightarrow> well_formed w'"
    and rec_ex: "\<And>d s w w'. well_formed w \<Longrightarrow> rec d s w = Some (None, w') \<Longrightarrow> lookup w' d \<noteq> None"
    and "well_formed w" and "lookup w dst \<noteq> None" and "distinct ns"
    and "sync_each rec dst src ns w = Some (None, w')"
    and "n \<in> set ns"
  shows "lookup w' (dst @ [n]) \<noteq> None"
  using assms(4-)
proof (induction ns arbitrary: w)
  case Nil
  then show ?case by simp
next
  case (Cons a ns)
  from Cons.prems(4) obtain w1 where 1: "rec (dst @ [a]) (src @ [a]) w = Some (None, w1)"
    and rest: "sync_each rec dst src ns w1 = Some (None, w')"
    by (auto split: option.splits prod.splits)
  have wf1: "well_formed w1" using Cons.prems(1) 1 by (rule rec_wf)
  have d1: "lookup w1 dst \<noteq> None"
    using uo_exact_child [OF Cons.prems(1) wf1 rec_uo [OF 1] Cons.prems(2), of dst]
      Cons.prems(2) by simp
  show ?case
  proof (cases "n = a")
    case True
    have "lookup w' (dst @ [a]) = lookup w1 (dst @ [a])"
      using rec_uo rec_wf wf1 d1 rest
    proof (rule sync_each_outside)
      fix n' assume "n' \<in> set ns"
      with Cons.prems(3) show "\<not> prefix (dst @ [n']) (dst @ [a])" by auto
    qed
    with rec_ex [OF Cons.prems(1) 1] True show ?thesis by simp
  next
    case False
    with Cons.prems(5) have "n \<in> set ns" by simp
    with Cons.IH [OF wf1 d1 _ rest] Cons.prems(3) show ?thesis by simp
  qed
qed

lemma equal_True_exists: "equal a b w = (Inr True, w2) \<Longrightarrow> lookup w2 a \<noteq> None"
proof -
  assume e: "equal a b w = (Inr True, w2)"
  then have "\<exists>i. Stat a w = Inr i"
    by (cases "Stat a w") (auto simp: equal_def Let_def IsNotExist_def split: if_splits)
  then have "lookup w a \<noteq> None" by (auto dest: Stat_lookup)
  with equal_lookup_eq(1) [OF e] show ?thesis by simp
qed

lemma Copy_exists: "Copy dst sf w = (None, w') \<Longrightarrow> lookup w' dst \<noteq> None"
  by (auto simp: Copy_def split: entry.splits option.splits)

lemma sync_file_exists:
  assumes "sync_file d dst src w = (None, w')"
  shows "lookup w' dst \<noteq> None"
proof -
  from assms obtain w1 where
    2: "(case equal dst src w1 of
          (Inl e, w2) \<Rightarrow> (Some e, w2)
        | (Inr True, w2) \<Rightarrow> (None, w2)
        | (Inr False, w2) \<Rightarrow>
            and_then (Create dst w2)
              (\<lambda>w3. case Open src w3 of Inl e \<Rightarrow> (Some e, w3) | Inr sf \<Rightarrow> Copy dst sf w3)) = (None, w')"
    unfolding sync_file_def by (auto dest!: and_then_cases)
  obtain r w2 where e: "equal dst src w1 = (r, w2)" by (cases "equal dst src w1")
  show ?thesis
  proof (cases r)
    case (Inl x)
    with 2 e show ?thesis by simp
  next
    case (Inr b)
    show ?thesis
    proof (cases b)
      case True
      with 2 e Inr have "w' = w2" by simp
      with equal_True_exists [of dst src w1 w2] e Inr True show ?thesis by simp
    next
      case False
      with 2 e Inr have "and_then (Create dst w2)
              (\<lambda>w3. case Open src w3 of Inl e \<Rightarrow> (Some e, w3) | Inr sf \<Rightarrow> Copy dst sf w3) = (None, w')"
        by simp
      then obtain w3 sf where "Copy dst sf w3 = (None, w')"
        by (auto dest!: and_then_cases split: sum.splits)
      then show ?thesis by (rule Copy_exists)
    qed
  qed
qed

lemma syncperms_exists:
  "lookup w dst \<noteq> None \<Longrightarrow> lookup (snd (syncperms dst src w)) dst \<noteq> None"
  by (auto simp: syncperms_def Let_def Chmod_def split: sum.splits)

lemma syncperms_elsewhere:
  "q \<noteq> dst \<Longrightarrow> lookup (snd (syncperms dst src w)) q = lookup w q"
  by (auto simp: syncperms_def Let_def Chmod_def split: sum.splits)

lemma syncperms_copies [simp]: "copies (snd (syncperms dst src w)) = copies w"
  by (auto simp: syncperms_def Let_def Chmod_def split: sum.splits)

lemma make_dir_Dir:
  assumes "nil_if_missing (Stat dst w) = Inr d" and "make_dir d dst w = (None, w1)"
  shows "\<exists>m. lookup w1 dst = Some (Dir m)"
proof (cases d)
  case None
  with assms(2) show ?thesis by (auto simp: make_dir_def dest: MkdirAll_Dir)
next
  case (Some e)
  show ?thesis
  proof (cases e)
    case (File b m)
    with Some assms(2) show ?thesis
      by (auto simp: make_dir_def dest!: and_then_cases dest: MkdirAll_Dir)
  next
    case (Dir m)
    with Some assms(1) have "Stat dst w = Inr (Dir m)"
      by (cases "Stat dst w") (auto split: if_splits)
    with Some Dir assms(2) show ?thesis by (auto simp: make_dir_def dest: Stat_lookup)
  qed
qed

lemma sync_dir_exists:
  assumes rec_uo: "\<And>d s w r w'. rec d s w = Some (r, w') \<Longrightarrow> unchanged_outside d w w'"
    and rec_wf: "\<And>d s w r w'. well_formed w \<Longrightarrow> rec d s w = Some (r, w') \<Longrightarrow> well_formed w'"
    and wf: "well_formed w" and d: "nil_if_missing (Stat dst w) = Inr d"
    and run: "sync_dir rec del d dst src w = Some (None, w')"
  shows "lookup w' dst \<noteq> None"
proof -
  from run obtain w1 m w2 where 1: "make_dir d dst w = (None, w1)"
    and 2: "sync_each rec dst src m w1 = Some (None, w2)"
    and 3: "w' = w2 \<or> (\<exists>ds. w' = snd (remove_extra dst m ds w2))"
    by (auto simp: sync_dir_def eq_snd_iff split: prod.splits option.splits sum.splits if_splits)
  have wf1: "well_formed w1" using wf_make_dir [OF wf, of d dst] 1 by simp
  from make_dir_Dir [OF d 1] have d1: "lookup w1 dst \<noteq> None" by auto
  have "lookup w2 dst = lookup w1 dst"
    using rec_uo rec_wf wf1 d1 2 by (rule sync_each_outside) simp_all
  with d1 3 show ?thesis by (auto simp: lookup_remove_extra)
qed

lemma sync_exists: "well_formed w \<Longrightarrow> sync k del dst src w = Some (None, w') \<Longrightarrow> lookup w' dst \<noteq> None"
proof (induction k arbitrary: dst src w w')
  case 0
  then show ?case by simp
next
  case (Suc k)
  from Suc.prems(2) obtain r1 w1 where 1: "sync_body (sync k del) del dst src w = Some (r1, w1)"
    and 2: "deferred (syncperms dst src) (r1, w1) = (None, w')"
    by auto
  from 2 have r1: "r1 = None" and w': "w' = snd (syncperms dst src w1)"
    by (auto simp: deferred_def split: prod.splits option.splits)
  from 1 r1 obtain d where d: "nil_if_missing (Stat dst w) = Inr d"
    and b: "sync_file d dst src w = (None, w1) \<or> sync_dir (sync k del) del d dst src w = Some (None, w1)"
    by (auto simp: sync_body_def split: sum.splits if_splits)
  have "lookup w1 dst \<noteq> None"
    using b sync_file_exists [of d dst src w w1]
      sync_dir_exists [of "sync k del" w dst d del src w1, OF uo_sync wf_sync Suc.prems(1) d]
    by auto
  with w' show ?case by (simp add: syncperms_exists)
qed

end
